theory Spec2Isabelle
  imports Main "HOL-Library.AList" "HOL-Library.Product_Lexorder"
begin

section \<open>Letter Boxed solver: data model\<close>

text \<open>
  The model follows \<^verbatim>\<open>src/letterboxed.py\<close>. A letter is a one-character Python string
  and is a \<^typ>\<open>char\<close> here; a word is a \<^typ>\<open>string\<close>. The fields of the two
  named tuples carry a prefix, because \<open>a\<close>, \<open>b\<close>, \<open>c\<close> and \<open>top\<close> would
  shadow variables and a constant of HOL.
\<close>

datatype Edge = Edge (edge_a: char) (edge_b: char) (edge_c: char)

datatype Puzzle = Puzzle (puzzle_left: Edge) (puzzle_right: Edge)
  (puzzle_top: Edge) (puzzle_bottom: Edge)

text \<open>Iterating a named tuple yields its fields in declaration order.\<close>

definition edge_letters :: "Edge \<Rightarrow> char list" where
  "edge_letters e = [edge_a e, edge_b e, edge_c e]"

definition puzzle_edges :: "Puzzle \<Rightarrow> Edge list" where
  "puzzle_edges p = [puzzle_left p, puzzle_right p, puzzle_top p, puzzle_bottom p]"

text \<open>
  \<^verbatim>\<open>class LetterNode\<close>: the letter (the empty string at the root), the explicit
  terminal flag and the dictionary of children. The dictionary is an association list in
  insertion order, read with \<^const>\<open>map_of\<close> and written with \<^const>\<open>AList.update\<close>,
  which replaces the value of a present key in place and appends an absent key, as
  assignment to a Python dictionary does.
\<close>

datatype LetterNode =
  LetterNode (letter: string) (terminal: bool) (nodes: "(char \<times> LetterNode) list")

datatype error = AttributeError | IndexError | KeyError | TypeError

record LetterBoxedSolver =
  word_graph :: LetterNode
  max_chain :: int
  max_iterations :: int

section \<open>The trie\<close>

text \<open>\<^verbatim>\<open>LetterNode.word\<close>: a leaf, or a node marked terminal.\<close>

definition word :: "LetterNode \<Rightarrow> bool" where
  "word self \<longleftrightarrow> length (nodes self) = 0 \<or> terminal self"

text \<open>
  \<^verbatim>\<open>LetterNode.get\<close>, the branch taken for a letter; \<open>None\<close> is Python's \<open>None\<close>.
  Every call in the source passes a string, so the branch for a node argument and the
  \<^verbatim>\<open>TypeError\<close> for any other type are not reached.
\<close>

definition get :: "LetterNode \<Rightarrow> char \<Rightarrow> LetterNode option" where
  "get self l = map_of (nodes self) l"

text \<open>\<^verbatim>\<open>LetterNode.add\<close>: \<^verbatim>\<open>self.nodes[node.letter] = node\<close>, for a one-letter node.\<close>

definition add_child :: "LetterNode \<Rightarrow> char \<Rightarrow> LetterNode \<Rightarrow> LetterNode" where
  "add_child self l node =
     LetterNode (letter self) (terminal self) (AList.update l node (nodes self))"

text \<open>
  The loop of \<^verbatim>\<open>LetterBoxedSolver.add\<close>, from the node \<open>current_node\<close> on. The source
  walks down the tree and mutates the nodes it reaches in place; the model rebuilds the
  path it walked. With no letter left, the node reached is marked terminal. Otherwise the
  child for the next letter is taken, or a fresh \<^verbatim>\<open>LetterNode(letter)\<close> is created and
  stored under that letter, and the walk goes on from there.
\<close>

fun add_letters :: "LetterNode \<Rightarrow> string \<Rightarrow> LetterNode" where
  "add_letters current_node [] =
     LetterNode (letter current_node) True (nodes current_node)"
| "add_letters current_node (l # letters) =
     (case get current_node l of
        None \<Rightarrow> add_child current_node l (add_letters (LetterNode [l] False []) letters)
      | Some node \<Rightarrow> add_child current_node l (add_letters node letters))"

definition add :: "LetterBoxedSolver \<Rightarrow> string \<Rightarrow> LetterBoxedSolver" where
  "add self w = self\<lparr>word_graph := add_letters (word_graph self) w\<rparr>"

text \<open>
  \<^verbatim>\<open>LetterBoxedSolver.__init__\<close> without a word list (with one, the source calls the
  method \<^verbatim>\<open>add_word\<close>, which the class does not have).
\<close>

definition new_solver :: "int \<Rightarrow> int \<Rightarrow> LetterBoxedSolver" where
  "new_solver mc mi =
     \<lparr>word_graph = LetterNode [] False [], max_chain = mc, max_iterations = mi\<rparr>"

text \<open>The solver after the words \<open>ws\<close> were added, in order.\<close>

definition add_all :: "LetterBoxedSolver \<Rightarrow> string list \<Rightarrow> LetterBoxedSolver" where
  "add_all self ws = foldl add self ws"

text \<open>Following the children from a node along the letters of a word.\<close>

fun descend :: "LetterNode \<Rightarrow> string \<Rightarrow> LetterNode option" where
  "descend n [] = Some n"
| "descend n (l # ls) = (case get n l of None \<Rightarrow> None | Some child \<Rightarrow> descend child ls)"

section \<open>Single-word constrained search\<close>

text \<open>
  \<^verbatim>\<open>next_edges\<close> in \<^verbatim>\<open>LetterNode.search\<close>: every edge of the puzzle when no
  current edge is passed, the edges different from it (as tuples) otherwise.
\<close>

definition next_edges :: "Puzzle \<Rightarrow> Edge option \<Rightarrow> Edge list" where
  "next_edges puzzle current_edge =
     (case current_edge of
        None \<Rightarrow> puzzle_edges puzzle
      | Some ce \<Rightarrow> filter (\<lambda>edge. edge \<noteq> ce) (puzzle_edges puzzle))"

lemma size_child:
  "map_of kids l = Some n \<Longrightarrow> size n < Suc (size_list (size_prod (\<lambda>_. 0) size) kids)"
  by (induction kids) (auto split: if_splits)

lemma size_member:
  "(k, n) \<in> set kids \<Longrightarrow> size n < Suc (size_list (size_prod (\<lambda>_. 0) size) kids)"
  by (induction kids) auto

lemma get_smaller: "get self l = Some n \<Longrightarrow> size n < size self"
  by (cases self) (auto simp: get_def dest: size_child)

text \<open>
  \<^verbatim>\<open>LetterNode.search\<close>. The result list starts with the node's own letter when the
  node is a word; then, for every next edge and every letter of it that has a child, the
  results of the child, each with the node's letter in front.
\<close>

function (domintros) LetterNode_search ::
  "LetterNode \<Rightarrow> Puzzle \<Rightarrow> Edge option \<Rightarrow> (string \<times> Edge option) list" where
  "LetterNode_search self puzzle current_edge =
     (if word self then [(letter self, current_edge)] else []) @
     concat (map (\<lambda>edge.
       concat (map (\<lambda>l.
         case get self l of
           None \<Rightarrow> []
         | Some current_node \<Rightarrow>
             map (\<lambda>result. (letter self @ fst result, snd result))
               (LetterNode_search current_node puzzle (Some edge)))
         (edge_letters edge)))
       (next_edges puzzle current_edge))"
  by pat_completeness auto

termination
  by (relation "measure (\<lambda>(self, puzzle, current_edge). size self)")
     (auto dest: get_smaller)

declare LetterNode_search.simps [simp del]

section \<open>Coverage check\<close>

text \<open>Running a loop body that may raise over a list: the first error ends the loop.\<close>

fun fold_err :: "('a \<Rightarrow> 's \<Rightarrow> error + 's) \<Rightarrow> 'a list \<Rightarrow> 's \<Rightarrow> error + 's" where
  "fold_err f [] s = Inr s"
| "fold_err f (x # xs) s = (case f x s of Inl e \<Rightarrow> Inl e | Inr s' \<Rightarrow> fold_err f xs s')"

text \<open>
  The dictionary \<^verbatim>\<open>used\<close> of \<^verbatim>\<open>are_all_letters_used\<close>: from an edge to a dictionary
  from the letters of that edge to a flag. A dictionary display with a repeated key keeps
  one entry, and so do two equal edges.
\<close>

type_synonym used_dict = "(Edge \<times> (char \<times> bool) list) list"

definition edge_dict :: "Edge \<Rightarrow> (char \<times> bool) list" where
  "edge_dict e =
     AList.update (edge_c e) False
       (AList.update (edge_b e) False (AList.update (edge_a e) False []))"

definition init_used :: "Puzzle \<Rightarrow> used_dict" where
  "init_used puzzle =
     AList.update (puzzle_bottom puzzle) (edge_dict (puzzle_bottom puzzle))
       (AList.update (puzzle_top puzzle) (edge_dict (puzzle_top puzzle))
         (AList.update (puzzle_right puzzle) (edge_dict (puzzle_right puzzle))
           (AList.update (puzzle_left puzzle) (edge_dict (puzzle_left puzzle)) [])))"

text \<open>
  \<^verbatim>\<open>if letter in edge: used[edge][letter] = True\<close>. Reading \<^verbatim>\<open>used[edge]\<close> raises
  \<^verbatim>\<open>KeyError\<close> for an absent edge.
\<close>

definition mark :: "char \<Rightarrow> Edge \<Rightarrow> used_dict \<Rightarrow> error + used_dict" where
  "mark l edge used =
     (if l \<in> set (edge_letters edge) then
        (case map_of used edge of
           None \<Rightarrow> Inl KeyError
         | Some d \<Rightarrow> Inr (AList.update edge (AList.update l True d) used))
      else Inr used)"

definition mark_words :: "Puzzle \<Rightarrow> string list \<Rightarrow> used_dict \<Rightarrow> error + used_dict" where
  "mark_words puzzle words used =
     fold_err (\<lambda>w. fold_err (\<lambda>l. fold_err (\<lambda>edge. mark l edge) (puzzle_edges puzzle)) w)
       words used"

text \<open>
  The closing loops: every key of \<^verbatim>\<open>used\<close>, every key of \<^verbatim>\<open>used[edge]\<close>, and the
  flag read back from the dictionary.
\<close>

definition all_marked :: "used_dict \<Rightarrow> bool" where
  "all_marked used =
     list_all (\<lambda>edge.
       case map_of used edge of
         None \<Rightarrow> False
       | Some d \<Rightarrow> list_all (\<lambda>l. map_of d l = Some True) (map fst d))
     (map fst used)"

definition are_all_letters_used :: "Puzzle \<Rightarrow> string list \<Rightarrow> error + bool" where
  "are_all_letters_used puzzle words =
     (case mark_words puzzle words (init_used puzzle) of
        Inl e \<Rightarrow> Inl e
      | Inr used \<Rightarrow> Inr (all_marked used))"

text \<open>Coverage as the specification words it: every letter of every edge is in some word.\<close>

definition covers :: "Puzzle \<Rightarrow> string list \<Rightarrow> bool" where
  "covers puzzle words \<longleftrightarrow>
     (\<forall>e \<in> set (puzzle_edges puzzle). \<forall>l \<in> set (edge_letters e). \<exists>w \<in> set words. l \<in> set w)"

section \<open>Chain search engine\<close>

type_synonym leaf = "string list \<times> Edge option"

record search_state =
  complete_list :: "leaf list"
  in_progress_lists :: "leaf list"
  current_list :: leaf
  puzzle_solutions :: "string \<rightharpoonup> bool"

definition initial_state :: search_state where
  "initial_state =
     \<lparr>complete_list = [], in_progress_lists = [], current_list = ([], None),
      puzzle_solutions = Map.empty\<rparr>"

text \<open>\<^verbatim>\<open>"_".join(word_list)\<close>.\<close>

fun join :: "string \<Rightarrow> string list \<Rightarrow> string" where
  "join sep [] = []"
| "join sep [w] = w"
| "join sep (w # ws) = w @ sep @ join sep ws"

text \<open>The body of \<^verbatim>\<open>for result in results\<close>.\<close>

definition process_result ::
  "LetterBoxedSolver \<Rightarrow> Puzzle \<Rightarrow> string list \<Rightarrow> string \<times> Edge option \<Rightarrow> search_state
     \<Rightarrow> error + search_state" where
  "process_result self puzzle current_words result st =
     (let w = fst result; edge = snd result in
      if w \<in> set current_words then Inr st
      else
        let word_list = current_words @ [w]; leaf = (word_list, edge) in
        case are_all_letters_used puzzle word_list of
          Inl e \<Rightarrow> Inl e
        | Inr True \<Rightarrow>
            (let smashed_words = join ''_'' word_list in
             if puzzle_solutions st smashed_words = None then
               Inr (st\<lparr>complete_list := complete_list st @ [leaf],
                       puzzle_solutions := (puzzle_solutions st)(smashed_words \<mapsto> True)\<rparr>)
             else Inr st)
        | Inr False \<Rightarrow>
            (if max_chain self > - 1 then
               (if int (length word_list) < max_chain self then
                  Inr (st\<lparr>in_progress_lists := in_progress_lists st @ [leaf]\<rparr>)
                else Inr st)
             else Inr (st\<lparr>in_progress_lists := in_progress_lists st @ [leaf]\<rparr>)))"

text \<open>
  The node the search starts from. \<^verbatim>\<open>current_words[-1][-1]\<close> raises \<^verbatim>\<open>IndexError\<close>
  when the last word is the empty string; \<^verbatim>\<open>get\<close> may return \<open>None\<close>.
\<close>

definition start_node :: "LetterBoxedSolver \<Rightarrow> string list \<Rightarrow> error + LetterNode option" where
  "start_node self current_words =
     (if length current_words = 0 then Inr (Some (word_graph self))
      else if last current_words = [] then Inl IndexError
      else Inr (get (word_graph self) (last (last current_words))))"

text \<open>
  \<^verbatim>\<open>results = node.search(puzzle, current_edge=current_edge)\<close>: an attribute of
  \<open>None\<close> raises \<^verbatim>\<open>AttributeError\<close>; the value a call of the method returns is the list
  of its single \<^verbatim>\<open>return\<close> statement, so the Python value tested against \<open>None\<close>
  afterwards is \<open>Some\<close> list.
\<close>

definition call_search ::
  "LetterNode option \<Rightarrow> Puzzle \<Rightarrow> Edge option
     \<Rightarrow> error + (string \<times> Edge option) list option" where
  "call_search node puzzle current_edge =
     (case node of
        None \<Rightarrow> Inl AttributeError
      | Some n \<Rightarrow> Inr (Some (LetterNode_search n puzzle current_edge)))"

text \<open>\<^verbatim>\<open>current_list = in_progress_lists.pop(0)\<close>, on a list known not to be empty.\<close>

definition pop_frontier :: "search_state \<Rightarrow> search_state" where
  "pop_frontier st =
     st\<lparr>current_list := hd (in_progress_lists st),
        in_progress_lists := tl (in_progress_lists st)\<rparr>"

text \<open>
  One pass through the body of \<^verbatim>\<open>while True\<close>, with the way it ends: an exception,
  the \<^verbatim>\<open>break\<close> or the \<^verbatim>\<open>continue\<close> of the test \<^verbatim>\<open>results is None\<close>, the
  \<^verbatim>\<open>break\<close> on the empty frontier at the end of the body, or the next pass.
\<close>

datatype step =
  Raise error
| Break_results_None search_state
| Continue_results_None search_state
| Break_frontier_empty search_state
| Next_pass search_state

definition iteration :: "LetterBoxedSolver \<Rightarrow> Puzzle \<Rightarrow> search_state \<Rightarrow> step" where
  "iteration self puzzle st =
     (let current_words = fst (current_list st); current_edge = snd (current_list st) in
      case start_node self current_words of
        Inl e \<Rightarrow> Raise e
      | Inr node \<Rightarrow>
          (case call_search node puzzle current_edge of
             Inl e \<Rightarrow> Raise e
           | Inr None \<Rightarrow>
               (if length (in_progress_lists st) = 0 then Break_results_None st
                else Continue_results_None (pop_frontier st))
           | Inr (Some results) \<Rightarrow>
               (case fold_err (process_result self puzzle current_words) results st of
                  Inl e \<Rightarrow> Raise e
                | Inr st' \<Rightarrow>
                    (if length (in_progress_lists st') = 0 then Break_frontier_empty st'
                     else Next_pass (pop_frontier st')))))"

text \<open>
  The loop. It has no bound of its own (\<^verbatim>\<open>max_iterations\<close> is stored and never read),
  so the model is a partial function: \<open>None\<close> stands for a loop that does not end,
  \<open>Some (Inl e)\<close> for an exception and \<open>Some (Inr st)\<close> for the state at a
  \<^verbatim>\<open>break\<close>.
\<close>

partial_function (option) search_loop ::
  "LetterBoxedSolver \<Rightarrow> Puzzle \<Rightarrow> search_state \<Rightarrow> (error + search_state) option" where
  "search_loop self puzzle st =
     (case iteration self puzzle st of
        Raise e \<Rightarrow> Some (Inl e)
      | Break_results_None st' \<Rightarrow> Some (Inr st')
      | Continue_results_None st' \<Rightarrow> search_loop self puzzle st'
      | Break_frontier_empty st' \<Rightarrow> Some (Inr st')
      | Next_pass st' \<Rightarrow> search_loop self puzzle st')"

declare search_loop.simps [code]

text \<open>
  The sort key \<^verbatim>\<open>(len(x), sum([len(word) for word in x]))\<close>; Python compares tuples
  lexicographically and its sort is stable, as \<^const>\<open>sort_key\<close> is.
\<close>

definition chain_key :: "string list \<Rightarrow> nat \<times> nat" where
  "chain_key x = (length x, sum_list (map length x))"

definition finish :: "search_state \<Rightarrow> string list list" where
  "finish st = sort_key chain_key (map fst (complete_list st))"

text \<open>\<^verbatim>\<open>LetterBoxedSolver.search\<close>.\<close>

definition search :: "LetterBoxedSolver \<Rightarrow> Puzzle \<Rightarrow> (error + string list list) option" where
  "search self puzzle =
     (case search_loop self puzzle initial_state of
        None \<Rightarrow> None
      | Some (Inl e) \<Rightarrow> Some (Inl e)
      | Some (Inr st) \<Rightarrow> Some (Inr (finish st)))"

section \<open>The single-word search, statement by statement\<close>

text \<open>
  \<^verbatim>\<open>LetterNode.search\<close> once more, this time with the values and exceptions of Python:
  the result is an exception, \<open>None\<close> or a list. The list \<^verbatim>\<open>search_results\<close> is
  threaded through the two \<^verbatim>\<open>for\<close> loops; a letter without a child is skipped
  (\<^verbatim>\<open>continue\<close>); an exception of a recursive call is passed on; iterating over a
  result that is \<open>None\<close> (\<^verbatim>\<open>for result in results\<close>) raises \<^verbatim>\<open>TypeError\<close>; the
  method ends in \<^verbatim>\<open>return search_results\<close>.
\<close>

lemma fold_err_cong [fundef_cong]:
  "xs = ys \<Longrightarrow> s = t \<Longrightarrow> (\<And>x a. x \<in> set ys \<Longrightarrow> f x a = g x a) \<Longrightarrow>
   fold_err f xs s = fold_err g ys t"
proof (induction ys arbitrary: xs s t)
  case Nil
  then show ?case by simp
next
  case (Cons y ys)
  then have "f y t = g y t" by simp
  moreover have "fold_err f ys a = fold_err g ys a" for a
    by (rule Cons.IH) (simp_all add: Cons.prems(3))
  ultimately show ?case using Cons.prems(1,2) by (simp split: sum.splits)
qed

function LetterNode_search_py ::
  "LetterNode \<Rightarrow> Puzzle \<Rightarrow> Edge option \<Rightarrow> error + (string \<times> Edge option) list option" where
  "LetterNode_search_py self puzzle current_edge =
     (case
        fold_err (\<lambda>edge.
          fold_err (\<lambda>l search_results.
            case get self l of
              None \<Rightarrow> Inr search_results
            | Some current_node \<Rightarrow>
                (case LetterNode_search_py current_node puzzle (Some edge) of
                   Inl e \<Rightarrow> Inl e
                 | Inr None \<Rightarrow> Inl TypeError
                 | Inr (Some results) \<Rightarrow>
                     Inr (search_results
                          @ map (\<lambda>result. (letter self @ fst result, snd result)) results)))
          (edge_letters edge))
        (next_edges puzzle current_edge)
        (if word self then [(letter self, current_edge)] else [])
      of
        Inl e \<Rightarrow> Inl e
      | Inr search_results \<Rightarrow> Inr (Some search_results))"
  by pat_completeness auto

termination
  by (relation "measure (\<lambda>(self, puzzle, current_edge). size self)")
     (auto dest: get_smaller)

declare LetterNode_search_py.simps [simp del]

section \<open>Predicates used in the properties\<close>

text \<open>
  A trie is keyed when every child is stored under its own one-letter string, at every
  depth. \<^verbatim>\<open>LetterNode.add\<close> stores a node under \<^verbatim>\<open>node.letter\<close>, so the tries the
  class builds are keyed.
\<close>

function keyed :: "LetterNode \<Rightarrow> bool" where
  "keyed (LetterNode l t kids) \<longleftrightarrow>
     list_all (\<lambda>(k, child). letter child = [k] \<and> keyed child) kids"
  by pat_completeness auto

termination
  by (relation "measure size") (auto dest: size_member)

text \<open>
  A chain: no word is empty where two meet, and each word after the first starts with
  the last letter of the word before it.
\<close>

fun linked :: "string list \<Rightarrow> bool" where
  "linked [] \<longleftrightarrow> True"
| "linked [w] \<longleftrightarrow> True"
| "linked (v # w # ws) \<longleftrightarrow> v \<noteq> [] \<and> w \<noteq> [] \<and> hd w = last v \<and> linked (w # ws)"

text \<open>
  The dictionary \<^verbatim>\<open>used\<close> holds an entry for exactly the edges of the puzzle, each
  with exactly the letters of its edge, and the flag of letter \<open>l\<close> of edge \<open>e\<close>
  is \<open>f e l\<close>.
\<close>

definition flags :: "Puzzle \<Rightarrow> (Edge \<Rightarrow> char \<Rightarrow> bool) \<Rightarrow> used_dict \<Rightarrow> bool" where
  "flags puzzle f used \<longleftrightarrow>
     fst ` set used = set (puzzle_edges puzzle) \<and>
     (\<forall>e \<in> set (puzzle_edges puzzle). \<exists>d. map_of used e = Some d \<and>
        fst ` set d = set (edge_letters e) \<and>
        (\<forall>l \<in> set (edge_letters e). map_of d l = Some (f e l)))"

text \<open>
  Every leaf of the list of solutions satisfies \<open>C\<close> and every leaf of the frontier
  satisfies \<open>F\<close>.
\<close>

definition entries_ok :: "(leaf \<Rightarrow> bool) \<Rightarrow> (leaf \<Rightarrow> bool) \<Rightarrow> search_state \<Rightarrow> bool" where
  "entries_ok C F st \<longleftrightarrow>
     (\<forall>x \<in> set (complete_list st). C x) \<and> (\<forall>x \<in> set (in_progress_lists st). F x)"

text \<open>
  The letters \<open>ls\<close> can be drawn one after the other from the edges \<open>es\<close> of the
  puzzle: each letter lies on its edge, and no edge equals the edge before it, the first
  one not the edge \<open>previous\<close>.
\<close>

fun edge_path :: "Puzzle \<Rightarrow> Edge option \<Rightarrow> string \<Rightarrow> Edge list \<Rightarrow> bool" where
  "edge_path puzzle previous [] [] \<longleftrightarrow> True"
| "edge_path puzzle previous (l # ls) (e # es) \<longleftrightarrow>
     e \<in> set (puzzle_edges puzzle) \<and> l \<in> set (edge_letters e) \<and> Some e \<noteq> previous \<and>
     edge_path puzzle (Some e) ls es"
| "edge_path puzzle previous _ _ \<longleftrightarrow> False"

text \<open>
  An assignment of one puzzle edge to each letter of a word, as C3 asks for it: every
  letter lies on its edge, neighbouring letters have different edges, and the first
  letter has the forbidden edge when one is passed.
\<close>

definition assignment_ok :: "Puzzle \<Rightarrow> Edge option \<Rightarrow> string \<Rightarrow> Edge list \<Rightarrow> bool" where
  "assignment_ok puzzle forbidden w as \<longleftrightarrow>
     length as = length w \<and> set as \<subseteq> set (puzzle_edges puzzle) \<and>
     (\<forall>i < length w. w ! i \<in> set (edge_letters (as ! i))) \<and>
     (\<forall>i. Suc i < length w \<longrightarrow> as ! i \<noteq> as ! Suc i) \<and>
     (case forbidden of None \<Rightarrow> True | Some fe \<Rightarrow> w \<noteq> [] \<longrightarrow> as ! 0 = fe)"

text \<open>
  Below the node, every node without children is marked terminal. Every node that
  \<^verbatim>\<open>LetterBoxedSolver.add\<close> creates either gets a child or is the end of its word.
\<close>

function leaves_marked :: "LetterNode \<Rightarrow> bool" where
  "leaves_marked (LetterNode l t kids) \<longleftrightarrow>
     list_all (\<lambda>(k, child). (nodes child = [] \<longrightarrow> terminal child) \<and> leaves_marked child) kids"
  by pat_completeness auto

termination
  by (relation "measure size") (auto dest: size_member)

text \<open>The words stored in a trie: those whose walk ends on a node marked terminal.\<close>

definition stored :: "LetterNode \<Rightarrow> string \<Rightarrow> bool" where
  "stored n w \<longleftrightarrow> (case descend n w of None \<Rightarrow> False | Some m \<Rightarrow> terminal m)"

text \<open>
  The state after the results \<open>ys\<close> of the first pass were handled, when the bound
  on the chain length is 1: nothing is on the frontier, and the solutions are the
  one-word chains of the covering words among \<open>ys\<close>, each once, with their keys
  recorded.
\<close>

definition single_pass_inv ::
  "Puzzle \<Rightarrow> (string \<times> Edge option) list \<Rightarrow> search_state \<Rightarrow> bool" where
  "single_pass_inv puzzle ys st \<longleftrightarrow>
     in_progress_lists st = [] \<and> distinct (map fst (complete_list st)) \<and>
     fst ` set (complete_list st) = {[w] | w. w \<in> fst ` set ys \<and> covers puzzle [w]} \<and>
     (\<forall>w. puzzle_solutions st w \<noteq> None \<longleftrightarrow> [w] \<in> fst ` set (complete_list st))"

text \<open>
  The states at the head of the loop that a run of the loop from \<open>st\<close> comes to: the
  state \<open>st\<close> itself, and the state a pass leaves for the next pass (by reaching the
  end of the body, or by the \<^verbatim>\<open>continue\<close> of the test \<^verbatim>\<open>results is None\<close>).
\<close>

inductive passes :: "LetterBoxedSolver \<Rightarrow> Puzzle \<Rightarrow> search_state \<Rightarrow> search_state \<Rightarrow> bool"
  for self :: LetterBoxedSolver and puzzle :: Puzzle where
  passes_here: "passes self puzzle st st"
| passes_next:
    "iteration self puzzle st = Next_pass st1 \<Longrightarrow> passes self puzzle st1 st2 \<Longrightarrow>
     passes self puzzle st st2"
| passes_continue:
    "iteration self puzzle st = Continue_results_None st1 \<Longrightarrow> passes self puzzle st1 st2 \<Longrightarrow>
     passes self puzzle st st2"

section \<open>A worked example\<close>

text \<open>
  The puzzle of the specification's scenarios, with the edges \<open>abc\<close>, \<open>def\<close>,
  \<open>ghi\<close> and \<open>jkl\<close>, and a solver over four words that fit it.
\<close>

definition example_puzzle :: Puzzle where
  "example_puzzle =
     Puzzle (Edge CHR ''a'' CHR ''b'' CHR ''c'') (Edge CHR ''d'' CHR ''e'' CHR ''f'')
       (Edge CHR ''g'' CHR ''h'' CHR ''i'') (Edge CHR ''j'' CHR ''k'' CHR ''l'')"

definition example_solver :: "int \<Rightarrow> LetterBoxedSolver" where
  "example_solver mc =
     add_all (new_solver mc (- 1)) [''adgjbeh'', ''hkcfil'', ''la'', ''adgjbehkcfil'']"

section \<open>Properties of the trie\<close>

lemma get_add_child_same: "get (add_child n l c) l = Some c"
  by (simp add: get_def add_child_def update_conv')

lemma get_add_child_other: "l' \<noteq> l \<Longrightarrow> get (add_child n l c) l' = get n l'"
  by (simp add: get_def add_child_def update_conv')

lemma terminal_add_child: "terminal (add_child n l c) = terminal n"
  by (simp add: add_child_def)

lemma letter_add_child: "letter (add_child n l c) = letter n"
  by (simp add: add_child_def)

lemma add_child_twice: "add_child (add_child n l x) l y = add_child n l y"
  by (simp add: add_child_def)

lemma letter_add_letters: "letter (add_letters n w) = letter n"
  by (cases w) (simp_all add: letter_add_child split: option.splits)

lemma terminal_add_letters_mono: "terminal n \<Longrightarrow> terminal (add_letters n w)"
  by (cases w) (simp_all add: terminal_add_child split: option.splits)

lemma add_all_snoc: "add_all s (ws @ [w]) = add (add_all s ws) w"
  by (simp add: add_all_def)

text \<open>The walk along a word that was just added ends on a node marked terminal.\<close>

lemma descend_add_letters: "\<exists>m. descend (add_letters n w) w = Some m \<and> terminal m"
proof (induction w arbitrary: n)
  case Nil
  show ?case by simp
next
  case (Cons l ls)
  show ?case
  proof (cases "get n l")
    case None
    with Cons [of "LetterNode [l] False []"] show ?thesis
      by (simp add: get_add_child_same)
  next
    case (Some c)
    with Cons [of c] show ?thesis
      by (simp add: get_add_child_same)
  qed
qed

text \<open>Adding another word removes no child and clears no flag.\<close>

lemma descend_terminal_kept:
  "descend n w = Some m \<Longrightarrow> terminal m \<Longrightarrow>
   \<exists>m'. descend (add_letters n v) w = Some m' \<and> terminal m'"
proof (induction w arbitrary: n v)
  case Nil
  then show ?case by (simp add: terminal_add_letters_mono)
next
  case (Cons l ls)
  from Cons.prems obtain c where c: "get n l = Some c" "descend c ls = Some m"
    by (auto split: option.splits)
  show ?case
  proof (cases v)
    case Nil
    with c Cons.prems show ?thesis by (simp add: get_def)
  next
    case (Cons l' v')
    show ?thesis
    proof (cases "l' = l")
      case True
      with c Cons Cons.IH [OF c(2) Cons.prems(2), of v'] show ?thesis
        by (simp add: get_add_child_same)
    next
      case False
      with c Cons Cons.prems show ?thesis
        by (auto simp: get_add_child_other split: option.splits)
    qed
  qed
qed

lemma descend_prefix: "descend n (xs @ ys) = Some m \<Longrightarrow> \<exists>m'. descend n xs = Some m'"
  by (induction xs arbitrary: n) (auto split: option.splits)

lemma inserted_word_found:
  "W \<in> set ws \<Longrightarrow> \<exists>m. descend (word_graph (add_all s ws)) W = Some m \<and> terminal m"
proof (induction ws rule: rev_induct)
  case Nil
  then show ?case by simp
next
  case (snoc w ws)
  show ?case
  proof (cases "W = w")
    case True
    then show ?thesis
      by (simp add: add_all_snoc add_def descend_add_letters)
  next
    case False
    with snoc obtain m where "descend (word_graph (add_all s ws)) W = Some m" "terminal m"
      by auto
    then show ?thesis
      by (simp add: add_all_snoc add_def descend_terminal_kept)
  qed
qed

text \<open>
  C8. Let the non-empty word \<open>W\<close> be among the words added to a solver, whatever its trie
  held before and whatever was added after \<open>W\<close>. Then the walk from the root along the
  letters of \<open>W\<close> finds a child at every step (the walk along every prefix of \<open>W\<close>
  succeeds), and the node reached after all \<open>length W\<close> letters is a word boundary.
\<close>

theorem inserted_word_reaches_boundary:
  assumes "W \<in> set ws" and "W \<noteq> []"
  shows "(\<forall>k \<le> length W. descend (word_graph (add_all self ws)) (take k W) \<noteq> None) \<and>
         (\<exists>n. descend (word_graph (add_all self ws)) W = Some n \<and> word n)"
proof -
  from assms(1) obtain m
    where m: "descend (word_graph (add_all self ws)) W = Some m" "terminal m"
    using inserted_word_found by blast
  have "descend (word_graph (add_all self ws)) (take k W) \<noteq> None" for k
    using descend_prefix [of _ "take k W" "drop k W"] m(1) by fastforce
  with m show ?thesis by (auto simp: word_def)
qed

theorem inserted_word_reaches_boundary_witness:
  "''ad'' \<in> set [''ad'', ''a''] \<and> ''ad'' \<noteq> [] \<and>
   descend (word_graph (add_all (new_solver (- 1) (- 1)) [''ad'', ''a''])) (take 1 ''ad'')
     \<noteq> None \<and>
   descend (word_graph (add_all (new_solver (- 1) (- 1)) [''ad'', ''a''])) (take 2 ''ad'')
     \<noteq> None \<and>
   (\<exists>n. descend (word_graph (add_all (new_solver (- 1) (- 1)) [''ad'', ''a''])) ''ad'' = Some n
      \<and> word n)"
proof -
  have h: "''ad'' \<in> set [''ad'', ''a'']" "''ad'' \<noteq> []"
    by simp_all
  note t = inserted_word_reaches_boundary [OF h, of "new_solver (- 1) (- 1)"]
  from t have a:
    "\<And>k. k \<le> length ''ad'' \<Longrightarrow>
       descend (word_graph (add_all (new_solver (- 1) (- 1)) [''ad'', ''a''])) (take k ''ad'')
         \<noteq> None"
    by blast
  from a [of 1] a [of 2] t h show ?thesis
    by simp
qed

lemma add_letters_idem: "add_letters (add_letters n w) w = add_letters n w"
proof (induction w arbitrary: n)
  case Nil
  show ?case by simp
next
  case (Cons l ls)
  show ?case
    by (cases "get n l") (simp_all add: get_add_child_same Cons add_child_twice)
qed

lemma add_idem: "add (add self w) w = add self w"
  by (simp add: add_def add_letters_idem)

text \<open>
  C9. Adding a word a second time changes nothing: the solver, and with it the trie (its
  structure and its terminal flags), is the one after the first addition. Hence every
  single-word search, every chain search and every later addition of words gives the same
  result after two additions as after one.
\<close>

theorem insertion_idempotent:
  "add (add self w) w = add self w \<and>
   word_graph (add (add self w) w) = word_graph (add self w) \<and>
   LetterNode_search (word_graph (add (add self w) w)) puzzle current_edge =
     LetterNode_search (word_graph (add self w)) puzzle current_edge \<and>
   search (add (add self w) w) puzzle = search (add self w) puzzle \<and>
   add_all (add (add self w) w) ws = add_all (add self w) ws"
  by (simp add: add_idem)

section \<open>The coverage check computes coverage\<close>

lemma fold_err_Inr:
  assumes "\<And>x ys s. I ys s \<Longrightarrow> x \<in> set xs \<Longrightarrow> \<exists>s'. f x s = Inr s' \<and> I (ys @ [x]) s'"
      and "I ys s"
  shows "\<exists>s'. fold_err f xs s = Inr s' \<and> I (ys @ xs) s'"
  using assms
proof (induction xs arbitrary: ys s)
  case Nil
  then show ?case by simp
next
  case (Cons x xs)
  from Cons.prems(1) [OF Cons.prems(2), of x] obtain s1
    where s1: "f x s = Inr s1" "I (ys @ [x]) s1" by auto
  have "\<exists>s'. fold_err f xs s1 = Inr s' \<and> I ((ys @ [x]) @ xs) s'"
    by (rule Cons.IH) (auto intro: Cons.prems(1) s1)
  with s1 show ?case by simp
qed

lemma flags_cong:
  "flags puzzle f used \<Longrightarrow>
   (\<And>e l. e \<in> set (puzzle_edges puzzle) \<Longrightarrow> l \<in> set (edge_letters e) \<Longrightarrow> f e l = g e l) \<Longrightarrow>
   flags puzzle g used"
  unfolding flags_def by fastforce

lemma map_of_edge_dict:
  "map_of (edge_dict e) l = (if l \<in> set (edge_letters e) then Some False else None)"
  by (simp add: edge_dict_def edge_letters_def update_conv')

lemma dom_edge_dict: "fst ` set (edge_dict e) = set (edge_letters e)"
  by (auto simp: edge_dict_def edge_letters_def dom_update)

lemma flags_init: "flags puzzle (\<lambda>e l. False) (init_used puzzle)"
  unfolding flags_def
  by (auto simp: init_used_def puzzle_edges_def dom_update update_conv' dom_edge_dict
        map_of_edge_dict)

lemma flags_mark:
  assumes "flags puzzle f used" and "edge \<in> set (puzzle_edges puzzle)"
  shows "\<exists>used'. mark l edge used = Inr used' \<and>
           flags puzzle (\<lambda>e l'. f e l' \<or> (e = edge \<and> l' = l)) used'"
proof (cases "l \<in> set (edge_letters edge)")
  case False
  with assms(1) show ?thesis
    by (auto simp: mark_def elim!: flags_cong)
next
  case True
  from assms obtain d where d: "map_of used edge = Some d"
    "fst ` set d = set (edge_letters edge)"
    "\<forall>l \<in> set (edge_letters edge). map_of d l = Some (f edge l)"
    unfolding flags_def by blast
  let ?used = "AList.update edge (AList.update l True d) used"
  have "flags puzzle (\<lambda>e l'. f e l' \<or> (e = edge \<and> l' = l)) ?used"
    unfolding flags_def
  proof (intro conjI ballI)
    show "fst ` set ?used = set (puzzle_edges puzzle)"
      using assms unfolding flags_def by (auto simp: dom_update)
  next
    fix e assume e: "e \<in> set (puzzle_edges puzzle)"
    show "\<exists>d. map_of ?used e = Some d \<and> fst ` set d = set (edge_letters e) \<and>
            (\<forall>l' \<in> set (edge_letters e). map_of d l' = Some (f e l' \<or> (e = edge \<and> l' = l)))"
    proof (cases "e = edge")
      case True
      with d \<open>l \<in> set (edge_letters edge)\<close> show ?thesis
        by (auto simp: update_conv' dom_update)
    next
      case False
      with e assms(1) show ?thesis
        unfolding flags_def by (auto simp: update_conv')
    qed
  qed
  with True d(1) show ?thesis
    by (simp add: mark_def)
qed

lemma flags_letter:
  assumes "flags puzzle (\<lambda>e l. l \<in> S) used"
  shows "\<exists>used'. fold_err (\<lambda>edge. mark l edge) (puzzle_edges puzzle) used = Inr used' \<and>
           flags puzzle (\<lambda>e l'. l' \<in> insert l S) used'"
proof -
  have "\<exists>used'. fold_err (\<lambda>edge. mark l edge) (puzzle_edges puzzle) used = Inr used' \<and>
          flags puzzle (\<lambda>e l'. l' \<in> S \<or> (e \<in> set ([] @ puzzle_edges puzzle) \<and> l' = l)) used'"
  proof (rule fold_err_Inr [where I = "\<lambda>es. flags puzzle (\<lambda>e l'. l' \<in> S \<or> (e \<in> set es \<and> l' = l))"])
    show "flags puzzle (\<lambda>e l'. l' \<in> S \<or> e \<in> set [] \<and> l' = l) used"
      using assms by simp
  next
    fix x ys s
    assume "flags puzzle (\<lambda>e l'. l' \<in> S \<or> e \<in> set ys \<and> l' = l) s"
      and "x \<in> set (puzzle_edges puzzle)"
    from flags_mark [OF this, of l] show
      "\<exists>s'. mark l x s = Inr s' \<and> flags puzzle (\<lambda>e l'. l' \<in> S \<or> e \<in> set (ys @ [x]) \<and> l' = l) s'"
      by (auto elim!: flags_cong)
  qed
  then show ?thesis
    by (auto elim!: flags_cong)
qed

lemma flags_word:
  assumes "flags puzzle (\<lambda>e l. l \<in> S) used"
  shows "\<exists>used'. fold_err (\<lambda>l. fold_err (\<lambda>edge. mark l edge) (puzzle_edges puzzle)) w used
            = Inr used' \<and> flags puzzle (\<lambda>e l'. l' \<in> S \<union> set w) used'"
proof -
  have "\<exists>used'. fold_err (\<lambda>l. fold_err (\<lambda>edge. mark l edge) (puzzle_edges puzzle)) w used
            = Inr used' \<and> flags puzzle (\<lambda>e l'. l' \<in> S \<union> set ([] @ w)) used'"
  proof (rule fold_err_Inr [where I = "\<lambda>ls. flags puzzle (\<lambda>e l'. l' \<in> S \<union> set ls)"])
    show "flags puzzle (\<lambda>e l'. l' \<in> S \<union> set []) used"
      using assms by simp
  next
    fix x ys s
    assume "flags puzzle (\<lambda>e l'. l' \<in> S \<union> set ys) s"
    from flags_letter [OF this, of x] show
      "\<exists>s'. fold_err (mark x) (puzzle_edges puzzle) s = Inr s' \<and>
         flags puzzle (\<lambda>e l'. l' \<in> S \<union> set (ys @ [x])) s'"
      by (auto elim!: flags_cong)
  qed
  then show ?thesis by simp
qed

lemma flags_words:
  assumes "flags puzzle (\<lambda>e l. l \<in> S) used"
  shows "\<exists>used'. mark_words puzzle ws used = Inr used' \<and>
           flags puzzle (\<lambda>e l'. l' \<in> S \<union> \<Union> (set ` set ws)) used'"
proof -
  have "\<exists>used'. mark_words puzzle ws used = Inr used' \<and>
           flags puzzle (\<lambda>e l'. l' \<in> S \<union> \<Union> (set ` set ([] @ ws))) used'"
    unfolding mark_words_def
  proof (rule fold_err_Inr [where I = "\<lambda>vs. flags puzzle (\<lambda>e l'. l' \<in> S \<union> \<Union> (set ` set vs))"])
    show "flags puzzle (\<lambda>e l'. l' \<in> S \<union> \<Union> (set ` set [])) used"
      using assms by simp
  next
    fix x ys s
    assume "flags puzzle (\<lambda>e l'. l' \<in> S \<union> \<Union> (set ` set ys)) s"
    from flags_word [OF this, of x] show
      "\<exists>s'. fold_err (\<lambda>l. fold_err (mark l) (puzzle_edges puzzle)) x s = Inr s' \<and>
         flags puzzle (\<lambda>e l'. l' \<in> S \<union> \<Union> (set ` set (ys @ [x]))) s'"
      by (auto elim!: flags_cong)
  qed
  then show ?thesis by simp
qed

lemma all_marked_flags:
  assumes "flags puzzle f used"
  shows "all_marked used \<longleftrightarrow>
           (\<forall>e \<in> set (puzzle_edges puzzle). \<forall>l \<in> set (edge_letters e). f e l)"
proof -
  have "all_marked used \<longleftrightarrow>
          (\<forall>e \<in> set (puzzle_edges puzzle). case map_of used e of None \<Rightarrow> False
             | Some d \<Rightarrow> \<forall>l \<in> fst ` set d. map_of d l = Some True)"
    using assms by (simp add: all_marked_def list_all_iff flags_def cong: option.case_cong)
  also have "\<dots> \<longleftrightarrow> (\<forall>e \<in> set (puzzle_edges puzzle). \<forall>l \<in> set (edge_letters e). f e l)"
    using assms unfolding flags_def by (fastforce split: option.splits)
  finally show ?thesis .
qed

lemma are_all_letters_used_covers:
  "are_all_letters_used puzzle ws = Inr (covers puzzle ws)"
proof -
  have "flags puzzle (\<lambda>e l. l \<in> {}) (init_used puzzle)"
    using flags_init by simp
  from flags_words [OF this, of ws] obtain used
    where u: "mark_words puzzle ws (init_used puzzle) = Inr used"
      "flags puzzle (\<lambda>e l'. l' \<in> \<Union> (set ` set ws)) used"
    by auto
  from all_marked_flags [OF u(2)] u(1) show ?thesis
    by (auto simp: are_all_letters_used_def covers_def)
qed

section \<open>Invariants of the search loop\<close>

lemma process_result_simp:
  "process_result self puzzle cw (w, e) st =
     Inr (if w \<in> set cw then st
          else if covers puzzle (cw @ [w]) then
            (if puzzle_solutions st (join ''_'' (cw @ [w])) = None then
               st\<lparr>complete_list := complete_list st @ [(cw @ [w], e)],
                  puzzle_solutions := (puzzle_solutions st)(join ''_'' (cw @ [w]) \<mapsto> True)\<rparr>
             else st)
          else if max_chain self > - 1 \<longrightarrow> int (length (cw @ [w])) < max_chain self then
            st\<lparr>in_progress_lists := in_progress_lists st @ [(cw @ [w], e)]\<rparr>
          else st)"
  by (simp add: process_result_def are_all_letters_used_covers Let_def)

lemma fold_err_invariant:
  assumes "\<And>x s. I s \<Longrightarrow> x \<in> set xs \<Longrightarrow> \<exists>s'. f x s = Inr s' \<and> I s'" and "I s"
  shows "\<exists>s'. fold_err f xs s = Inr s' \<and> I s'"
  using fold_err_Inr [where I = "\<lambda>ys. I" and f = f and xs = xs and s = s] assms
  by blast

lemma process_results_ok:
  assumes ok: "entries_ok C F st"
    and found: "\<And>w e. (w, e) \<in> set results \<Longrightarrow> w \<notin> set cw \<Longrightarrow> covers puzzle (cw @ [w]) \<Longrightarrow>
                  C (cw @ [w], e)"
    and pushed: "\<And>w e. (w, e) \<in> set results \<Longrightarrow> w \<notin> set cw \<Longrightarrow> \<not> covers puzzle (cw @ [w]) \<Longrightarrow>
                  (max_chain self > - 1 \<longrightarrow> int (length (cw @ [w])) < max_chain self) \<Longrightarrow>
                  F (cw @ [w], e)"
  shows "\<exists>st'. fold_err (process_result self puzzle cw) results st = Inr st' \<and>
           (entries_ok C F st' \<and> current_list st' = current_list st)"
proof (rule fold_err_invariant)
  show "entries_ok C F st \<and> current_list st = current_list st"
    using ok by simp
next
  fix x s
  assume s: "entries_ok C F s \<and> current_list s = current_list st" and x: "x \<in> set results"
  obtain w e where we: "x = (w, e)" by (cases x)
  show "\<exists>s'. process_result self puzzle cw x s = Inr s' \<and>
          (entries_ok C F s' \<and> current_list s' = current_list st)"
    using s x found [of w e] pushed [of w e] unfolding we process_result_simp
    by (auto simp: entries_ok_def)
qed

text \<open>One pass of the loop, by cases.\<close>

lemma iteration_cases:
  obtains
    (raise) e where "iteration self puzzle st = Raise e"
  | (pass) node st' where
      "start_node self (fst (current_list st)) = Inr (Some node)"
      "fold_err (process_result self puzzle (fst (current_list st)))
         (LetterNode_search node puzzle (snd (current_list st))) st = Inr st'"
      "iteration self puzzle st =
         (if in_progress_lists st' = [] then Break_frontier_empty st'
          else Next_pass (pop_frontier st'))"
proof (cases "start_node self (fst (current_list st))")
  case (Inl e)
  then have "iteration self puzzle st = Raise e"
    by (simp add: iteration_def)
  then show ?thesis by (rule raise)
next
  case (Inr node_opt)
  show ?thesis
  proof (cases node_opt)
    case None
    with Inr have "iteration self puzzle st = Raise AttributeError"
      by (simp add: iteration_def call_search_def)
    then show ?thesis by (rule raise)
  next
    case (Some node)
    show ?thesis
    proof (cases "fold_err (process_result self puzzle (fst (current_list st)))
        (LetterNode_search node puzzle (snd (current_list st))) st")
      case (Inl e)
      with Inr Some have "iteration self puzzle st = Raise e"
        by (simp add: iteration_def call_search_def)
      then show ?thesis by (rule raise)
    next
      case st': (Inr st')
      with Inr Some have "iteration self puzzle st =
         (if in_progress_lists st' = [] then Break_frontier_empty st'
          else Next_pass (pop_frontier st'))"
        by (simp add: iteration_def call_search_def)
      with Inr Some st' show ?thesis by (intro pass) simp_all
    qed
  qed
qed

lemma search_loop_invariant:
  assumes run: "search_loop self puzzle st = Some (Inr st')"
    and init: "entries_ok C F st" "F (current_list st)"
    and found: "\<And>cw ce node w e. F (cw, ce) \<Longrightarrow> start_node self cw = Inr (Some node) \<Longrightarrow>
        (w, e) \<in> set (LetterNode_search node puzzle ce) \<Longrightarrow> w \<notin> set cw \<Longrightarrow>
        covers puzzle (cw @ [w]) \<Longrightarrow> C (cw @ [w], e)"
    and pushed: "\<And>cw ce node w e. F (cw, ce) \<Longrightarrow> start_node self cw = Inr (Some node) \<Longrightarrow>
        (w, e) \<in> set (LetterNode_search node puzzle ce) \<Longrightarrow> w \<notin> set cw \<Longrightarrow>
        \<not> covers puzzle (cw @ [w]) \<Longrightarrow>
        (max_chain self > - 1 \<longrightarrow> int (length (cw @ [w])) < max_chain self) \<Longrightarrow>
        F (cw @ [w], e)"
  shows "entries_ok C F st' \<and> in_progress_lists st' = []"
proof -
  define P where "P = (\<lambda>s p st (r :: error + search_state). s = self \<and> p = puzzle \<and> entries_ok C F st \<and>
    F (current_list st) \<longrightarrow>
    (\<forall>st'. r = Inr st' \<longrightarrow> entries_ok C F st' \<and> in_progress_lists st' = []))"
  have "P self puzzle st (Inr st')"
  proof (rule search_loop.raw_induct [where P = P, OF _ run])
    fix loop s p st r
    assume IH: "\<And>s p st r. loop s p st = Some r \<Longrightarrow> P s p st r"
      and eq: "(case iteration s p st of
                  Raise e \<Rightarrow> Some (Inl e)
                | Break_results_None st' \<Rightarrow> Some (Inr st')
                | Continue_results_None st' \<Rightarrow> loop s p st'
                | Break_frontier_empty st' \<Rightarrow> Some (Inr st')
                | Next_pass st' \<Rightarrow> loop s p st') = Some r"
    show "P s p st r"
      unfolding P_def
    proof (intro impI, elim conjE)
      assume sp: "s = self" "p = puzzle" and ok: "entries_ok C F st"
        and Fc: "F (current_list st)"
      show "\<forall>st'. r = Inr st' \<longrightarrow> entries_ok C F st' \<and> in_progress_lists st' = []"
      proof (cases rule: iteration_cases [of s p st])
        case (raise e)
        with eq show ?thesis by auto
      next
        case (pass node st1)
        obtain cw ce where cur: "current_list st = (cw, ce)" by (cases "current_list st")
        from Fc cur have F: "F (cw, ce)" by simp
        from pass(1) cur sp have sn: "start_node self cw = Inr (Some node)" by simp
        have "\<exists>st2. fold_err (process_result self puzzle cw)
                (LetterNode_search node puzzle ce) st = Inr st2 \<and>
                (entries_ok C F st2 \<and> current_list st2 = current_list st)"
          by (rule process_results_ok [OF ok])
            (auto intro: found [OF F sn] pushed [OF F sn])
        with pass(2) cur sp have ok1: "entries_ok C F st1"
          by simp
        show ?thesis
        proof (cases "in_progress_lists st1 = []")
          case True
          with eq pass(3) ok1 show ?thesis by auto
        next
          case False
          with eq pass(3) have l: "loop s p (pop_frontier st1) = Some r" by simp
          from False ok1 have "entries_ok C F (pop_frontier st1)"
            "F (current_list (pop_frontier st1))"
            by (auto simp: entries_ok_def pop_frontier_def dest: list.set_sel)
          with IH [OF l] sp show ?thesis by (simp add: P_def)
        qed
      qed
    qed
  qed
  with init show ?thesis by (simp add: P_def)
qed

section \<open>Keyed tries and chains\<close>

lemma linked_snoc:
  "linked (ws @ [w]) \<longleftrightarrow>
     linked ws \<and> (ws = [] \<or> (last ws \<noteq> [] \<and> w \<noteq> [] \<and> hd w = last (last ws)))"
  by (induction ws rule: linked.induct) auto

lemma keyed_get: "keyed n \<Longrightarrow> get n l = Some c \<Longrightarrow> letter c = [l] \<and> keyed c"
  by (cases n) (auto simp: get_def list_all_iff dest!: map_of_SomeD)

lemma search_prefix:
  "(w, e) \<in> set (LetterNode_search n p ce) \<Longrightarrow> \<exists>ls. w = letter n @ ls"
  by (subst (asm) LetterNode_search.simps) (auto split: if_splits option.splits)

lemma set_update_subset: "set (AList.update k v al) \<subseteq> insert (k, v) (set al)"
  by (induction al) auto

lemma keyed_add_child:
  "keyed n \<Longrightarrow> keyed c \<Longrightarrow> letter c = [l] \<Longrightarrow> keyed (add_child n l c)"
  using set_update_subset [of l c "nodes n"]
  by (cases n) (auto simp: add_child_def list_all_iff)

lemma keyed_add_letters: "keyed n \<Longrightarrow> keyed (add_letters n w)"
proof (induction w arbitrary: n)
  case Nil
  then show ?case by (cases n) simp
next
  case (Cons l ls)
  show ?case
  proof (cases "get n l")
    case None
    have "keyed (add_letters (LetterNode [l] False []) ls)" by (rule Cons.IH) simp
    with None Cons.prems show ?thesis
      by (simp add: keyed_add_child letter_add_letters)
  next
    case (Some c)
    with Cons.prems have "letter c = [l]" "keyed c" by (auto dest: keyed_get)
    with Some Cons.prems Cons.IH [of c] show ?thesis
      by (simp add: keyed_add_child letter_add_letters)
  qed
qed

lemma keyed_add_all: "keyed (word_graph self) \<Longrightarrow> keyed (word_graph (add_all self ws))"
  by (induction ws rule: rev_induct) (simp_all add: add_all_snoc add_def keyed_add_letters add_all_def)

lemma keyed_new: "keyed (word_graph (add_all (new_solver mc mi) ws))"
  by (rule keyed_add_all) (simp add: new_solver_def)

section \<open>What the single-word search returns\<close>

lemma next_edges_iff:
  "e \<in> set (next_edges puzzle ce) \<longleftrightarrow> e \<in> set (puzzle_edges puzzle) \<and> Some e \<noteq> ce"
  by (cases ce) (auto simp: next_edges_def)

lemma set_search:
  "set (LetterNode_search n p ce) =
     (if word n then {(letter n, ce)} else {}) \<union>
     (\<Union>e \<in> set (next_edges p ce). \<Union>l \<in> set (edge_letters e).
        case get n l of
          None \<Rightarrow> {}
        | Some c \<Rightarrow> (\<lambda>r. (letter n @ fst r, snd r)) ` set (LetterNode_search c p (Some e)))"
proof -
  have c: "set (case x of None \<Rightarrow> [] | Some c \<Rightarrow> f c) =
      (case x of None \<Rightarrow> {} | Some c \<Rightarrow> set (f c))" for x :: "LetterNode option"
    and f :: "LetterNode \<Rightarrow> (string \<times> Edge option) list"
    by (cases x) simp_all
  show ?thesis
    by (subst LetterNode_search.simps) (simp add: c cong: option.case_cong)
qed

lemma in_search_iff:
  "(w, le) \<in> set (LetterNode_search n p ce) \<longleftrightarrow>
     (word n \<and> w = letter n \<and> le = ce) \<or>
     (\<exists>e l c w'. e \<in> set (next_edges p ce) \<and> l \<in> set (edge_letters e) \<and> get n l = Some c \<and>
        (w', le) \<in> set (LetterNode_search c p (Some e)) \<and> w = letter n @ w')"
  (is "?L \<longleftrightarrow> ?own \<or> ?child")
proof
  assume ?L
  then show "?own \<or> ?child"
    unfolding set_search [of n] by (fastforce split: if_splits option.splits)
next
  assume "?own \<or> ?child"
  then show ?L
  proof
    assume ?own
    then show ?L unfolding set_search [of n] by simp
  next
    assume ?child
    then obtain e l c w' where h: "e \<in> set (next_edges p ce)" "l \<in> set (edge_letters e)"
      "get n l = Some c" "(w', le) \<in> set (LetterNode_search c p (Some e))" "w = letter n @ w'"
      by blast
    from h(4,5) have "(w, le) \<in> (\<lambda>r. (letter n @ fst r, snd r)) ` set (LetterNode_search c p (Some e))"
      by force
    with h(1,2,3) show ?L
      unfolding set_search [of n] by force
  qed
qed

lemma search_sound:
  "keyed n \<Longrightarrow> (w, le) \<in> set (LetterNode_search n p ce) \<Longrightarrow>
   \<exists>ls es m. w = letter n @ ls \<and> edge_path p ce ls es \<and> le = last (ce # map Some es) \<and>
     descend n ls = Some m \<and> word m"
proof (induction n p ce arbitrary: w le rule: LetterNode_search.induct)
  case (1 self puzzle current_edge)
  from "1.prems"(2) consider
    (own) "word self" "w = letter self" "le = current_edge"
  | (child) e l c w' where "e \<in> set (next_edges puzzle current_edge)"
      "l \<in> set (edge_letters e)" "get self l = Some c"
      "(w', le) \<in> set (LetterNode_search c puzzle (Some e))" "w = letter self @ w'"
    unfolding in_search_iff [of w le self] by blast
  then show ?case
  proof cases
    case own
    then have "w = letter self @ [] \<and> edge_path puzzle current_edge [] [] \<and>
        le = last (current_edge # map Some []) \<and> descend self [] = Some self \<and> word self"
      by simp
    then show ?thesis by blast
  next
    case child
    from keyed_get [OF "1.prems"(1) child(3)] have c: "letter c = [l]" "keyed c" by simp_all
    from "1.IH" [OF child(1,2,3) c(2) child(4)] obtain ls es m
      where r: "w' = letter c @ ls" "edge_path puzzle (Some e) ls es"
        "le = last (Some e # map Some es)" "descend c ls = Some m" "word m"
      by blast
    from child(1) have e: "e \<in> set (puzzle_edges puzzle)" "Some e \<noteq> current_edge"
      by (simp_all add: next_edges_iff)
    have "w = letter self @ (l # ls) \<and> edge_path puzzle current_edge (l # ls) (e # es) \<and>
        le = last (current_edge # map Some (e # es)) \<and> descend self (l # ls) = Some m \<and> word m"
      using child r c e by simp
    then show ?thesis by blast
  qed
qed

lemma search_complete:
  "keyed n \<Longrightarrow> descend n ls = Some m \<Longrightarrow> word m \<Longrightarrow> edge_path p ce ls es \<Longrightarrow>
   (letter n @ ls, last (ce # map Some es)) \<in> set (LetterNode_search n p ce)"
proof (induction ls arbitrary: n ce es)
  case Nil
  then have "n = m" "es = []" "word n"
    by (cases es; simp)+
  then show ?case
    by (subst in_search_iff) simp
next
  case (Cons l ls)
  from Cons.prems(4) obtain e es' where es: "es = e # es'" "e \<in> set (puzzle_edges p)"
    "l \<in> set (edge_letters e)" "Some e \<noteq> ce" "edge_path p (Some e) ls es'"
    by (cases es) auto
  from Cons.prems(2) obtain c where c: "get n l = Some c" "descend c ls = Some m"
    by (auto split: option.splits)
  from keyed_get [OF Cons.prems(1) c(1)] have k: "letter c = [l]" "keyed c" by simp_all
  from Cons.IH [OF k(2) c(2) Cons.prems(3) es(5)]
  have "(letter c @ ls, last (Some e # map Some es')) \<in> set (LetterNode_search c p (Some e))" .
  with es c k show ?case
    unfolding in_search_iff [of _ _ n]
    by (intro disjI2 exI [of _ e] exI [of _ l] exI [of _ c] exI [of _ "l # ls"])
      (simp add: next_edges_iff)
qed

lemma edge_path_assignment:
  "edge_path p previous ls es \<Longrightarrow>
   length es = length ls \<and> set es \<subseteq> set (puzzle_edges p) \<and>
   (\<forall>i < length ls. ls ! i \<in> set (edge_letters (es ! i))) \<and>
   (\<forall>i. Suc i < length ls \<longrightarrow> es ! i \<noteq> es ! Suc i) \<and>
   (es \<noteq> [] \<longrightarrow> Some (es ! 0) \<noteq> previous)"
proof (induction p previous ls es rule: edge_path.induct)
  case (2 puzzle previous l ls e es)
  then have ih: "length es = length ls" "set es \<subseteq> set (puzzle_edges puzzle)"
    "\<forall>i < length ls. ls ! i \<in> set (edge_letters (es ! i))"
    "\<forall>i. Suc i < length ls \<longrightarrow> es ! i \<noteq> es ! Suc i"
    "es \<noteq> [] \<longrightarrow> Some (es ! 0) \<noteq> Some e"
    and e: "e \<in> set (puzzle_edges puzzle)" "l \<in> set (edge_letters e)" "Some e \<noteq> previous"
    by simp_all
  have "(l # ls) ! i \<in> set (edge_letters ((e # es) ! i))" if "i < length (l # ls)" for i
    using that ih(3) e(2) by (cases i) simp_all
  moreover have "(e # es) ! i \<noteq> (e # es) ! Suc i" if "Suc i < length (l # ls)" for i
    using that ih(1,4,5) by (cases i) auto
  ultimately show ?case
    using ih(1,2) e by simp
qed simp_all

text \<open>
  C3 as stated fails. The node of the letter \<open>a\<close> in the trie of the one word \<open>a\<close>,
  searched with the forbidden edge \<open>def\<close>, returns the word \<open>a\<close>; no assignment
  gives its only letter the edge \<open>def\<close> and has the letter on that edge.
\<close>

theorem forbidden_edge_need_not_hold_first_letter:
  "get (word_graph (add_all (new_solver (- 1) (- 1)) [''a''])) CHR ''a''
     = Some (LetterNode ''a'' True []) \<and>
   (''a'', Some (Edge CHR ''d'' CHR ''e'' CHR ''f''))
     \<in> set (LetterNode_search (LetterNode ''a'' True []) example_puzzle
              (Some (Edge CHR ''d'' CHR ''e'' CHR ''f''))) \<and>
   \<not> (\<exists>as. assignment_ok example_puzzle (Some (Edge CHR ''d'' CHR ''e'' CHR ''f'')) ''a'' as)"
proof -
  have a: "get (word_graph (add_all (new_solver (- 1) (- 1)) [''a''])) CHR ''a''
     = Some (LetterNode ''a'' True [])"
    by code_simp
  have b: "(''a'', Some (Edge CHR ''d'' CHR ''e'' CHR ''f''))
     \<in> set (LetterNode_search (LetterNode ''a'' True []) example_puzzle
              (Some (Edge CHR ''d'' CHR ''e'' CHR ''f'')))"
    by code_simp
  have c: "\<not> (\<exists>as. assignment_ok example_puzzle (Some (Edge CHR ''d'' CHR ''e'' CHR ''f'')) ''a'' as)"
    by (auto simp: assignment_ok_def edge_letters_def)
  from a b c show ?thesis by simp
qed

text \<open>
  C3, amended. Let the node be keyed, as every node the class builds is, and let it be
  called as the chain search and the recursion call it: with no forbidden edge on the
  root (whose letter is empty), or with a forbidden edge of the puzzle on which the
  node's letter lies. Then every returned pair of a word and an ending edge admits an
  assignment of one puzzle edge per letter such that each letter lies on its edge,
  neighbouring letters have different edges and the first letter has the forbidden edge
  when one is passed; the ending edge is the edge of the last letter (the edge passed in
  for the empty word).
\<close>

theorem returned_word_has_edge_assignment:
  assumes "keyed n"
    and "case ce of None \<Rightarrow> letter n = []
         | Some fe \<Rightarrow> fe \<in> set (puzzle_edges puzzle) \<and> (\<exists>c \<in> set (edge_letters fe). letter n = [c])"
    and "(w, le) \<in> set (LetterNode_search n puzzle ce)"
  shows "\<exists>as. assignment_ok puzzle ce w as \<and> le = last (ce # map Some as)"
proof -
  from search_sound [OF assms(1,3)] obtain ls es
    where r: "w = letter n @ ls" "edge_path puzzle ce ls es" "le = last (ce # map Some es)"
    by blast
  note a = edge_path_assignment [OF r(2)]
  show ?thesis
  proof (cases ce)
    case None
    with assms(2) r a have "assignment_ok puzzle ce w es \<and> le = last (ce # map Some es)"
      by (simp add: assignment_ok_def)
    then show ?thesis ..
  next
    case (Some fe)
    with assms(2) obtain c where c: "fe \<in> set (puzzle_edges puzzle)"
      "c \<in> set (edge_letters fe)" "letter n = [c]"
      by auto
    have "(c # ls) ! i \<in> set (edge_letters ((fe # es) ! i))" if "i < length (c # ls)" for i
      using that a c(2) by (cases i) simp_all
    moreover have "(fe # es) ! i \<noteq> (fe # es) ! Suc i" if "Suc i < length (c # ls)" for i
      using that a Some by (cases i) auto
    ultimately have "assignment_ok puzzle ce w (fe # es)"
      using a c r(1) Some by (simp add: assignment_ok_def)
    moreover from r(3) Some have "le = last (ce # map Some (fe # es))"
      by simp
    ultimately show ?thesis by blast
  qed
qed

theorem returned_word_has_edge_assignment_witness:
  "keyed (word_graph (example_solver (- 1))) \<and>
   letter (word_graph (example_solver (- 1))) = [] \<and>
   (''la'', Some (Edge CHR ''a'' CHR ''b'' CHR ''c''))
     \<in> set (LetterNode_search (word_graph (example_solver (- 1))) example_puzzle None) \<and>
   (\<exists>as. assignment_ok example_puzzle None ''la'' as \<and>
      Some (Edge CHR ''a'' CHR ''b'' CHR ''c'') = last (None # map Some as))"
proof -
  have k: "keyed (word_graph (example_solver (- 1)))"
    by (simp add: example_solver_def keyed_new)
  have l: "letter (word_graph (example_solver (- 1))) = []"
    by code_simp
  have m: "(''la'', Some (Edge CHR ''a'' CHR ''b'' CHR ''c''))
     \<in> set (LetterNode_search (word_graph (example_solver (- 1))) example_puzzle None)"
    by code_simp
  from returned_word_has_edge_assignment [OF k _ m] l k m show ?thesis
    by simp
qed

section \<open>Properties of the chain search\<close>

lemma example_search:
  "search (example_solver (- 1)) example_puzzle =
     Some (Inr [[''adgjbehkcfil''], [''adgjbeh'', ''hkcfil''], [''la'', ''adgjbehkcfil''],
                [''hkcfil'', ''la'', ''adgjbeh''], [''la'', ''adgjbeh'', ''hkcfil''],
                [''hkcfil'', ''la'', ''adgjbehkcfil'']])"
  by code_simp

lemma search_finish:
  "search self puzzle = Some (Inr sols) \<Longrightarrow>
   \<exists>st. search_loop self puzzle initial_state = Some (Inr st) \<and> sols = finish st"
  by (auto simp: search_def split: option.splits sum.splits)

text \<open>
  C7. The list the chain search returns is sorted by the key (number of words, total
  number of letters), compared lexicographically: of two returned chains, the earlier one
  has at most as many words as the later one, and when both have equally many words the
  earlier one has at most as many letters in total.
\<close>

theorem solutions_sorted_by_words_then_letters:
  assumes "search self puzzle = Some (Inr sols)" and "i < j" and "j < length sols"
  shows "sorted (map chain_key sols) \<and>
         length (sols ! i) \<le> length (sols ! j) \<and>
         (length (sols ! i) = length (sols ! j) \<longrightarrow>
            sum_list (map length (sols ! i)) \<le> sum_list (map length (sols ! j)))"
proof -
  from assms(1) obtain st where "sols = finish st"
    using search_finish by blast
  then have s: "sorted (map chain_key sols)"
    by (simp add: finish_def)
  from assms(2,3) have "i < length sols" by simp
  with s assms(2,3) have "chain_key (sols ! i) \<le> chain_key (sols ! j)"
    using sorted_nth_mono [of "map chain_key sols" i j] by simp
  with s show ?thesis
    by (auto simp: chain_key_def less_eq_prod_def)
qed

theorem solutions_sorted_by_words_then_letters_witness:
  "search (example_solver (- 1)) example_puzzle =
     Some (Inr [[''adgjbehkcfil''], [''adgjbeh'', ''hkcfil''], [''la'', ''adgjbehkcfil''],
                [''hkcfil'', ''la'', ''adgjbeh''], [''la'', ''adgjbeh'', ''hkcfil''],
                [''hkcfil'', ''la'', ''adgjbehkcfil'']]) \<and>
   length [''adgjbeh'', ''hkcfil''] = length [''la'', ''adgjbehkcfil''] \<and>
   sum_list (map length [''adgjbeh'', ''hkcfil''])
     \<le> sum_list (map length [''la'', ''adgjbehkcfil''])"
  using solutions_sorted_by_words_then_letters [OF example_search, of 1 2] example_search
  by simp

text \<open>
  C4, at a failing input. The only word added is \<open>ad\<close>. The first pass finds it, it
  does not cover the puzzle and goes to the frontier; the next pass pops it, and the root
  has no child for its last letter \<open>d\<close>, so \<^verbatim>\<open>self.word_graph.get\<close> returns \<open>None\<close> and
  \<^verbatim>\<open>node.search\<close> raises \<^verbatim>\<open>AttributeError\<close>: the search does not end normally.
\<close>

theorem search_raises_without_start_letter:
  "get (word_graph (add_all (new_solver (- 1) (- 1)) [''ad''])) CHR ''d'' = None \<and>
   search (add_all (new_solver (- 1) (- 1)) [''ad'']) example_puzzle =
     Some (Inl AttributeError)"
  by code_simp

section \<open>The empty word\<close>

lemma search_set_terminal:
  "LetterNode_search (LetterNode (letter n) True (nodes n)) p ce =
     (if word n then LetterNode_search n p ce else (letter n, ce) # LetterNode_search n p ce)"
proof -
  let ?m = "LetterNode (letter n) True (nodes n)"
  have m: "word ?m" "letter ?m = letter n" "get ?m = get n"
    by (simp_all add: word_def get_def fun_eq_iff)
  show ?thesis
    by (simp add: LetterNode_search.simps [of ?m] LetterNode_search.simps [of n] m
          del: LetterNode.sel cong: option.case_cong)
qed

text \<open>
  C5 as stated fails: adding the empty word to the example solver marks the root
  terminal, and the chain search, which returned six chains before, then raises
  \<^verbatim>\<open>IndexError\<close>.
\<close>

theorem empty_word_not_rejected:
  "\<not> terminal (word_graph (example_solver (- 1))) \<and>
   terminal (word_graph (add (example_solver (- 1)) '''')) \<and>
   search (add (example_solver (- 1)) '''') example_puzzle = Some (Inl IndexError) \<and>
   search (add (example_solver (- 1)) '''') example_puzzle
     \<noteq> search (example_solver (- 1)) example_puzzle"
proof -
  have a: "\<not> terminal (word_graph (example_solver (- 1)))"
    by code_simp
  have b: "terminal (word_graph (add (example_solver (- 1)) ''''))"
    by (simp add: add_def)
  have c: "search (add (example_solver (- 1)) '''') example_puzzle = Some (Inl IndexError)"
    by code_simp
  from a b c example_search show ?thesis
    by simp
qed

text \<open>
  C5, amended. Adding the empty word is not rejected: it sets the terminal flag of the
  root and changes nothing else of the solver. A single-word search from the root then
  returns the same list as before when the root was a word boundary already, and the same
  list with the pair of the root's letter and the edge passed in put in front otherwise.
\<close>

theorem empty_word_marks_root:
  "add self '''' =
     self\<lparr>word_graph :=
       LetterNode (letter (word_graph self)) True (nodes (word_graph self))\<rparr> \<and>
   terminal (word_graph (add self '''')) \<and>
   LetterNode_search (word_graph (add self '''')) puzzle current_edge =
     (if word (word_graph self) then LetterNode_search (word_graph self) puzzle current_edge
      else (letter (word_graph self), current_edge)
             # LetterNode_search (word_graph self) puzzle current_edge)"
  by (simp add: add_def search_set_terminal)

section \<open>Every returned chain covers the puzzle, is a chain, and is bounded\<close>

lemma entries_ok_initial: "entries_ok C F initial_state"
  by (simp add: entries_ok_def initial_state_def)

lemma set_finish: "set (finish st) = fst ` set (complete_list st)"
  by (simp add: finish_def)

text \<open>
  C1. Every chain the chain search returns covers the puzzle: \<^verbatim>\<open>are_all_letters_used\<close>
  holds for it, and every letter of every edge of the puzzle occurs in one of its words.
  This holds for every solver, whatever its trie.
\<close>

theorem returned_chains_cover_puzzle:
  assumes "search self puzzle = Some (Inr sols)" and "c \<in> set sols"
  shows "are_all_letters_used puzzle c = Inr True \<and>
         (\<forall>e \<in> set (puzzle_edges puzzle). \<forall>l \<in> set (edge_letters e). l \<in> \<Union> (set ` set c))"
proof -
  from assms(1) obtain st where st: "search_loop self puzzle initial_state = Some (Inr st)"
    "sols = finish st"
    using search_finish by blast
  have "entries_ok (\<lambda>x. covers puzzle (fst x)) (\<lambda>x. True) st \<and> in_progress_lists st = []"
    by (rule search_loop_invariant [OF st(1)]) (simp_all add: entries_ok_initial)
  with assms(2) st(2) have "covers puzzle c"
    by (auto simp: entries_ok_def set_finish)
  then show ?thesis
    by (auto simp: are_all_letters_used_covers covers_def)
qed

theorem returned_chains_cover_puzzle_witness:
  "search (example_solver (- 1)) example_puzzle =
     Some (Inr [[''adgjbehkcfil''], [''adgjbeh'', ''hkcfil''], [''la'', ''adgjbehkcfil''],
                [''hkcfil'', ''la'', ''adgjbeh''], [''la'', ''adgjbeh'', ''hkcfil''],
                [''hkcfil'', ''la'', ''adgjbehkcfil'']]) \<and>
   are_all_letters_used example_puzzle [''adgjbeh'', ''hkcfil''] = Inr True \<and>
   CHR ''k'' \<in> \<Union> (set ` set [''adgjbeh'', ''hkcfil''])"
  using returned_chains_cover_puzzle [OF example_search, of "[''adgjbeh'', ''hkcfil'']"]
    example_search
  by simp

lemma chain_length_bounded:
  assumes "search self puzzle = Some (Inr sols)" and "1 \<le> max_chain self" and "c \<in> set sols"
  shows "int (length c) \<le> max_chain self"
proof -
  from assms(1) obtain st where st: "search_loop self puzzle initial_state = Some (Inr st)"
    "sols = finish st"
    using search_finish by blast
  have "entries_ok (\<lambda>x. int (length (fst x)) \<le> max_chain self)
          (\<lambda>x. int (length (fst x)) < max_chain self) st \<and> in_progress_lists st = []"
    using assms(2)
    by (intro search_loop_invariant [OF st(1)] entries_ok_initial) (auto simp: initial_state_def)
  with assms(3) st(2) show ?thesis
    by (auto simp: entries_ok_def set_finish)
qed

lemma start_node_linked:
  assumes "keyed (word_graph self)" and "start_node self cw = Inr (Some node)"
    and "(w, e) \<in> set (LetterNode_search node puzzle ce)"
  shows "cw = [] \<or> (last cw \<noteq> [] \<and> w \<noteq> [] \<and> hd w = last (last cw))"
proof (cases "cw = []")
  case True
  then show ?thesis by simp
next
  case False
  with assms(2) have l: "last cw \<noteq> []" and g: "get (word_graph self) (last (last cw)) = Some node"
    by (auto simp: start_node_def split: if_splits)
  from keyed_get [OF assms(1) g] have "letter node = [last (last cw)]" by simp
  with search_prefix [OF assms(3)] l show ?thesis by auto
qed

text \<open>
  C2. Every list of words the chain search returns from a keyed trie has no word twice,
  and each of its words after the first starts with the last letter of the word before.
\<close>

theorem returned_chains_are_chains:
  assumes "search self puzzle = Some (Inr sols)" and "keyed (word_graph self)"
    and "c \<in> set sols"
  shows "distinct c \<and> linked c"
proof -
  from assms(1) obtain st where st: "search_loop self puzzle initial_state = Some (Inr st)"
    "sols = finish st"
    using search_finish by blast
  let ?ok = "\<lambda>x :: leaf. distinct (fst x) \<and> linked (fst x)"
  have "entries_ok ?ok ?ok st \<and> in_progress_lists st = []"
  proof (rule search_loop_invariant [OF st(1)])
    show "entries_ok ?ok ?ok initial_state"
      by (rule entries_ok_initial)
    show "?ok (current_list initial_state)"
      by (simp add: initial_state_def)
  next
    fix cw ce node w e
    assume "?ok (cw, ce)" "start_node self cw = Inr (Some node)"
      "(w, e) \<in> set (LetterNode_search node puzzle ce)" "w \<notin> set cw"
    with start_node_linked [OF assms(2), of cw node w e puzzle ce]
    show "?ok (cw @ [w], e)" "?ok (cw @ [w], e)"
      by (auto simp: linked_snoc)
  qed
  with assms(3) st(2) show ?thesis
    by (auto simp: entries_ok_def set_finish)
qed

theorem returned_chains_are_chains_witness:
  "search (example_solver (- 1)) example_puzzle =
     Some (Inr [[''adgjbehkcfil''], [''adgjbeh'', ''hkcfil''], [''la'', ''adgjbehkcfil''],
                [''hkcfil'', ''la'', ''adgjbeh''], [''la'', ''adgjbeh'', ''hkcfil''],
                [''hkcfil'', ''la'', ''adgjbehkcfil'']]) \<and>
   keyed (word_graph (example_solver (- 1))) \<and>
   distinct [''la'', ''adgjbeh'', ''hkcfil''] \<and> linked [''la'', ''adgjbeh'', ''hkcfil'']"
proof -
  have k: "keyed (word_graph (example_solver (- 1)))"
    by (simp add: example_solver_def keyed_new)
  from returned_chains_are_chains [OF example_search k, of "[''la'', ''adgjbeh'', ''hkcfil'']"]
    example_search k
  show ?thesis by simp
qed

section \<open>The words of a trie built by insertions\<close>

lemma leaves_marked_get:
  "leaves_marked n \<Longrightarrow> get n l = Some c \<Longrightarrow> (nodes c = [] \<longrightarrow> terminal c) \<and> leaves_marked c"
  by (cases n) (auto simp: get_def list_all_iff dest!: map_of_SomeD)

lemma leaves_marked_add_child:
  "leaves_marked n \<Longrightarrow> leaves_marked c \<Longrightarrow> nodes c = [] \<longrightarrow> terminal c \<Longrightarrow>
   leaves_marked (add_child n l c)"
  using set_update_subset [of l c "nodes n"]
  by (cases n) (auto simp: add_child_def list_all_iff)

lemma nodes_add_letters: "nodes (add_letters n w) = [] \<Longrightarrow> terminal (add_letters n w)"
  by (cases w) (auto simp: add_child_def split: option.splits)

lemma leaves_marked_add_letters: "leaves_marked n \<Longrightarrow> leaves_marked (add_letters n w)"
proof (induction w arbitrary: n)
  case Nil
  then show ?case by (cases n) simp
next
  case (Cons l ls)
  show ?case
  proof (cases "get n l")
    case None
    have "leaves_marked (add_letters (LetterNode [l] False []) ls)" by (rule Cons.IH) simp
    with None Cons.prems show ?thesis
      by (simp add: leaves_marked_add_child nodes_add_letters)
  next
    case (Some c)
    with Cons.prems have "leaves_marked c" by (auto dest: leaves_marked_get)
    with Some Cons.prems Cons.IH [of c] show ?thesis
      by (simp add: leaves_marked_add_child nodes_add_letters)
  qed
qed

lemma leaves_marked_descend:
  "leaves_marked n \<Longrightarrow> descend n ls = Some m \<Longrightarrow> ls \<noteq> [] \<Longrightarrow> word m \<Longrightarrow> terminal m"
proof (induction ls arbitrary: n)
  case Nil
  then show ?case by simp
next
  case (Cons l ls)
  from Cons.prems(2) obtain c where c: "get n l = Some c" "descend c ls = Some m"
    by (auto split: option.splits)
  from leaves_marked_get [OF Cons.prems(1) c(1)] have lc: "nodes c = [] \<longrightarrow> terminal c"
    "leaves_marked c" by simp_all
  show ?case
  proof (cases "ls = []")
    case True
    with c lc Cons.prems(4) show ?thesis by (auto simp: word_def)
  next
    case False
    from Cons.IH [OF lc(2) c(2) False Cons.prems(4)] show ?thesis .
  qed
qed

lemma stored_fresh: "stored (LetterNode [l] False []) w \<longleftrightarrow> False"
  by (cases w) (simp_all add: stored_def get_def)

lemma stored_Nil: "stored n [] \<longleftrightarrow> terminal n"
  by (simp add: stored_def)

lemma stored_Cons:
  "stored n (l # ls) \<longleftrightarrow> (case get n l of None \<Rightarrow> False | Some c \<Rightarrow> stored c ls)"
  by (simp add: stored_def split: option.splits)

lemma stored_add_letters: "stored (add_letters n v) w \<longleftrightarrow> w = v \<or> stored n w"
proof (induction v arbitrary: n w)
  case Nil
  show ?case
    by (cases w) (auto simp: stored_Nil stored_Cons get_def)
next
  case (Cons l v)
  show ?case
  proof (cases w)
    case Nil
    then show ?thesis
      by (auto simp: stored_Nil terminal_add_child split: option.splits)
  next
    case w: (Cons l' w')
    show ?thesis
    proof (cases "l' = l")
      case True
      show ?thesis
      proof (cases "get n l")
        case None
        with True w Cons.IH [of "LetterNode [l] False []" w'] show ?thesis
          by (simp add: stored_Cons get_add_child_same stored_fresh)
      next
        case (Some c)
        with True w Cons.IH [of c w'] show ?thesis
          by (simp add: stored_Cons get_add_child_same)
      qed
    next
      case False
      with w show ?thesis
        by (cases "get n l") (simp_all add: stored_Cons get_add_child_other)
    qed
  qed
qed

lemma stored_add_all:
  "stored (word_graph (add_all self ws)) w \<longleftrightarrow> w \<in> set ws \<or> stored (word_graph self) w"
  by (induction ws rule: rev_induct)
    (auto simp: add_all_snoc add_def stored_add_letters add_all_def)

lemma stored_new: "stored (word_graph (add_all (new_solver mc mi) ws)) w \<longleftrightarrow> w \<in> set ws"
proof -
  have "\<not> stored (LetterNode [] False []) w"
    by (cases w) (simp_all add: stored_Nil stored_Cons get_def)
  then show ?thesis
    by (simp add: stored_add_all new_solver_def)
qed

lemma leaves_marked_add_all:
  "leaves_marked (word_graph self) \<Longrightarrow> leaves_marked (word_graph (add_all self ws))"
  by (induction ws rule: rev_induct)
    (simp_all add: add_all_snoc add_def leaves_marked_add_letters add_all_def)

lemma leaves_marked_new: "leaves_marked (word_graph (add_all (new_solver mc mi) ws))"
  by (rule leaves_marked_add_all) (simp add: new_solver_def)

lemma letter_add_all: "letter (word_graph (add_all self ws)) = letter (word_graph self)"
  by (induction ws rule: rev_induct)
    (simp_all add: add_all_snoc add_def letter_add_letters add_all_def)

text \<open>
  In a trie built by insertions, the words the search from the root returns with no
  forbidden edge are the inserted words that can be drawn from the puzzle, and the empty
  word when the root is a word boundary.
\<close>

lemma root_search_words:
  assumes "root = word_graph (add_all (new_solver mc mi) ws)"
  shows "(\<exists>e. (w, e) \<in> set (LetterNode_search root puzzle None)) \<longleftrightarrow>
           (w = [] \<and> word root) \<or> (w \<noteq> [] \<and> w \<in> set ws \<and> (\<exists>es. edge_path puzzle None w es))"
proof -
  have k: "keyed root" and lm: "leaves_marked root"
    by (simp_all add: assms keyed_new leaves_marked_new)
  have l: "letter root = []"
    by (simp add: assms letter_add_all new_solver_def)
  show ?thesis
  proof
    assume "\<exists>e. (w, e) \<in> set (LetterNode_search root puzzle None)"
    then obtain e where "(w, e) \<in> set (LetterNode_search root puzzle None)" ..
    from search_sound [OF k this] l obtain es m
      where r: "edge_path puzzle None w es" "descend root w = Some m" "word m"
      by auto
    show "(w = [] \<and> word root) \<or> (w \<noteq> [] \<and> w \<in> set ws \<and> (\<exists>es. edge_path puzzle None w es))"
    proof (cases "w = []")
      case True
      with r show ?thesis by simp
    next
      case False
      from leaves_marked_descend [OF lm r(2) False r(3)] r(2) have "stored root w"
        by (simp add: stored_def)
      with assms have "w \<in> set ws" by (simp add: stored_new)
      with False r(1) show ?thesis by blast
    qed
  next
    assume "(w = [] \<and> word root) \<or> (w \<noteq> [] \<and> w \<in> set ws \<and> (\<exists>es. edge_path puzzle None w es))"
    then show "\<exists>e. (w, e) \<in> set (LetterNode_search root puzzle None)"
    proof
      assume "w = [] \<and> word root"
      with l have "(w, None) \<in> set (LetterNode_search root puzzle None)"
        by (subst in_search_iff) simp
      then show ?thesis ..
    next
      assume a: "w \<noteq> [] \<and> w \<in> set ws \<and> (\<exists>es. edge_path puzzle None w es)"
      then obtain es where es: "edge_path puzzle None w es" by blast
      from a assms have "stored root w" by (simp add: stored_new)
      then obtain m where m: "descend root w = Some m" "terminal m"
        by (auto simp: stored_def split: option.splits)
      from search_complete [OF k m(1) _ es] m(2) l
      have "(w, last (None # map Some es)) \<in> set (LetterNode_search root puzzle None)"
        by (simp add: word_def)
      then show ?thesis ..
    qed
  qed
qed

section \<open>The bound on the chain length\<close>

lemma single_pass_step:
  assumes "max_chain self = 1" and "single_pass_inv puzzle ys st"
  shows "\<exists>st'. process_result self puzzle [] x st = Inr st' \<and>
           single_pass_inv puzzle (ys @ [x]) st'"
proof -
  obtain w e where x: "x = (w, e)" by (cases x)
  show ?thesis
  proof (cases "covers puzzle [w]")
    case False
    with assms show ?thesis
      unfolding x process_result_simp single_pass_inv_def by auto
  next
    case True
    show ?thesis
    proof (cases "puzzle_solutions st w = None")
      case None: True
      with assms(2) have "[w] \<notin> fst ` set (complete_list st)"
        unfolding single_pass_inv_def by blast
      with assms True None show ?thesis
        unfolding x process_result_simp single_pass_inv_def by auto
    next
      case False
      with assms(2) have "[w] \<in> fst ` set (complete_list st)"
        unfolding single_pass_inv_def by blast
      with assms True False show ?thesis
        unfolding x process_result_simp single_pass_inv_def by auto
    qed
  qed
qed

lemma single_pass:
  assumes "max_chain self = 1"
  shows "\<exists>sols. search self puzzle = Some (Inr sols) \<and> distinct sols \<and>
           set sols = {[w] | w. (\<exists>e. (w, e) \<in> set (LetterNode_search (word_graph self) puzzle None))
                          \<and> covers puzzle [w]}"
proof -
  let ?results = "LetterNode_search (word_graph self) puzzle None"
  have "\<exists>st'. fold_err (process_result self puzzle []) ?results initial_state = Inr st' \<and>
          single_pass_inv puzzle ([] @ ?results) st'"
  proof (rule fold_err_Inr)
    show "single_pass_inv puzzle [] initial_state"
      by (simp add: single_pass_inv_def initial_state_def)
  next
    fix x ys s
    assume "single_pass_inv puzzle ys s"
    from single_pass_step [OF assms this]
    show "\<exists>s'. process_result self puzzle [] x s = Inr s' \<and> single_pass_inv puzzle (ys @ [x]) s'" .
  qed
  then obtain st where st: "fold_err (process_result self puzzle []) ?results initial_state = Inr st"
    "single_pass_inv puzzle ?results st"
    by auto
  then have "iteration self puzzle initial_state = Break_frontier_empty st"
    by (simp add: iteration_def start_node_def call_search_def initial_state_def
        single_pass_inv_def)
  then have "search_loop self puzzle initial_state = Some (Inr st)"
    by (subst search_loop.simps) simp
  then have s: "search self puzzle = Some (Inr (finish st))"
    by (simp add: search_def)
  from st(2) have "distinct (finish st)"
    by (simp add: finish_def single_pass_inv_def distinct_map)
  moreover have "w \<in> fst ` set ?results \<longleftrightarrow> (\<exists>e. (w, e) \<in> set ?results)" for w
    by force
  with st(2) have "set (finish st) =
      {[w] | w. (\<exists>e. (w, e) \<in> set ?results) \<and> covers puzzle [w]}"
    by (simp add: set_finish single_pass_inv_def)
  ultimately show ?thesis using s by blast
qed

lemma not_covers_empty_word: "\<not> covers puzzle [[]]"
  by (auto simp: covers_def puzzle_edges_def edge_letters_def)

lemma example_search_one:
  "search (example_solver 1) example_puzzle = Some (Inr [[''adgjbehkcfil'']])"
  by code_simp

text \<open>
  C6. Let the bound \<^verbatim>\<open>max_chain\<close> be at least 1. Then no returned chain has more
  words than the bound. With the bound 1 the search returns (it ends after one pass,
  without an exception), each returned chain once, and the returned chains are exactly
  the one-word chains \<open>[w]\<close> of the words \<open>w\<close> that the single-word search from
  the root finds and that cover the puzzle alone. When the trie was built by inserting
  the words \<open>ws\<close> into the empty trie, these are the inserted words that can be
  drawn from the puzzle without two neighbouring letters on one edge and that cover the
  puzzle alone; so the result is empty when no inserted word covers the puzzle.
\<close>

theorem chains_within_max_chain:
  assumes "1 \<le> max_chain self"
  shows "(\<forall>sols. search self puzzle = Some (Inr sols) \<longrightarrow>
            (\<forall>c \<in> set sols. int (length c) \<le> max_chain self)) \<and>
         (max_chain self = 1 \<longrightarrow>
            (\<exists>sols. search self puzzle = Some (Inr sols) \<and> distinct sols \<and>
               set sols =
                 {[w] | w. (\<exists>e. (w, e) \<in> set (LetterNode_search (word_graph self) puzzle None))
                    \<and> covers puzzle [w]} \<and>
               (\<forall>mc mi ws. word_graph self = word_graph (add_all (new_solver mc mi) ws) \<longrightarrow>
                  set sols =
                    {[w] | w. w \<in> set ws \<and> (\<exists>es. edge_path puzzle None w es) \<and> covers puzzle [w]}
                  \<and> ((\<forall>w \<in> set ws. \<not> covers puzzle [w]) \<longrightarrow> sols = []))))"
proof (intro conjI impI allI)
  fix sols
  assume "search self puzzle = Some (Inr sols)"
  with assms show "\<forall>c \<in> set sols. int (length c) \<le> max_chain self"
    using chain_length_bounded by blast
next
  assume k: "max_chain self = 1"
  from single_pass [OF k, of puzzle] obtain sols
    where s: "search self puzzle = Some (Inr sols)" "distinct sols"
      "set sols = {[w] | w. (\<exists>e. (w, e) \<in> set (LetterNode_search (word_graph self) puzzle None))
                          \<and> covers puzzle [w]}"
    by blast
  have "set sols = {[w] | w. w \<in> set ws \<and> (\<exists>es. edge_path puzzle None w es) \<and> covers puzzle [w]}
        \<and> ((\<forall>w \<in> set ws. \<not> covers puzzle [w]) \<longrightarrow> sols = [])"
    if b: "word_graph self = word_graph (add_all (new_solver mc mi) ws)" for mc mi ws
  proof -
    have "(\<exists>e. (w, e) \<in> set (LetterNode_search (word_graph self) puzzle None)) \<and> covers puzzle [w]
        \<longleftrightarrow> w \<in> set ws \<and> (\<exists>es. edge_path puzzle None w es) \<and> covers puzzle [w]" for w
      using root_search_words [OF b, of w puzzle] not_covers_empty_word [of puzzle]
      by (cases "w = []") auto
    with s(3) have e: "set sols =
        {[w] | w. w \<in> set ws \<and> (\<exists>es. edge_path puzzle None w es) \<and> covers puzzle [w]}"
      by simp
    have "sols = []" if "\<forall>w \<in> set ws. \<not> covers puzzle [w]"
    proof -
      from that have "{[w] | w. w \<in> set ws \<and> (\<exists>es. edge_path puzzle None w es) \<and>
          covers puzzle [w]} = {}"
        by simp
      with e have "set sols = {}" by simp
      then show ?thesis by simp
    qed
    with e show ?thesis by simp
  qed
  then have "\<forall>mc mi ws. word_graph self = word_graph (add_all (new_solver mc mi) ws) \<longrightarrow>
         set sols =
           {[w] | w. w \<in> set ws \<and> (\<exists>es. edge_path puzzle None w es) \<and> covers puzzle [w]}
         \<and> ((\<forall>w \<in> set ws. \<not> covers puzzle [w]) \<longrightarrow> sols = [])"
    by (intro allI impI)
  with s show "\<exists>sols. search self puzzle = Some (Inr sols) \<and> distinct sols \<and>
      set sols = {[w] | w. (\<exists>e. (w, e) \<in> set (LetterNode_search (word_graph self) puzzle None))
                    \<and> covers puzzle [w]} \<and>
      (\<forall>mc mi ws. word_graph self = word_graph (add_all (new_solver mc mi) ws) \<longrightarrow>
         set sols =
           {[w] | w. w \<in> set ws \<and> (\<exists>es. edge_path puzzle None w es) \<and> covers puzzle [w]}
         \<and> ((\<forall>w \<in> set ws. \<not> covers puzzle [w]) \<longrightarrow> sols = []))"
    by (intro exI [of _ sols] conjI)
qed

theorem chains_within_max_chain_witness:
  "1 \<le> max_chain (example_solver 1) \<and> max_chain (example_solver 1) = 1 \<and>
   search (example_solver 1) example_puzzle = Some (Inr [[''adgjbehkcfil'']]) \<and>
   int (length [''adgjbehkcfil'']) \<le> max_chain (example_solver 1)"
proof -
  have m: "max_chain (example_solver 1) = 1"
    by code_simp
  then have "1 \<le> max_chain (example_solver 1)"
    by simp
  from chains_within_max_chain [OF this, of example_puzzle] m example_search_one
  show ?thesis by simp
qed

section \<open>The single-word search always returns a list\<close>

lemma LetterNode_search_total: "LetterNode_search_dom (n, puzzle, ce)"
proof (induction n arbitrary: ce rule: measure_induct_rule [where f = size])
  case (less n)
  show ?case
    by (rule LetterNode_search.domintros) (auto dest: get_smaller intro: less)
qed

lemma search_nonempty_path:
  "LetterNode_search n p ce \<noteq> [] \<Longrightarrow>
   \<exists>ls es m. descend n ls = Some m \<and> word m \<and> edge_path p ce ls es"
proof (induction n p ce rule: LetterNode_search.induct)
  case (1 self puzzle current_edge)
  from "1.prems" obtain w le where "(w, le) \<in> set (LetterNode_search self puzzle current_edge)"
    by (cases "LetterNode_search self puzzle current_edge") auto
  then consider
    (own) "word self"
  | (child) e l c w' where "e \<in> set (next_edges puzzle current_edge)"
      "l \<in> set (edge_letters e)" "get self l = Some c"
      "(w', le) \<in> set (LetterNode_search c puzzle (Some e))"
    unfolding in_search_iff [of w le self] by blast
  then show ?case
  proof cases
    case own
    then have "descend self [] = Some self \<and> word self \<and> edge_path puzzle current_edge [] []"
      by simp
    then show ?thesis by blast
  next
    case child
    from child(4) have "LetterNode_search c puzzle (Some e) \<noteq> []" by auto
    from "1.IH" [OF child(1,2,3) this] obtain ls es m
      where r: "descend c ls = Some m" "word m" "edge_path puzzle (Some e) ls es"
      by blast
    from child(1) have "e \<in> set (puzzle_edges puzzle)" "Some e \<noteq> current_edge"
      by (simp_all add: next_edges_iff)
    with child r have "descend self (l # ls) = Some m \<and> word m \<and>
        edge_path puzzle current_edge (l # ls) (e # es)"
      by simp
    then show ?thesis by blast
  qed
qed

lemma path_search_nonempty:
  "descend n ls = Some m \<Longrightarrow> word m \<Longrightarrow> edge_path p ce ls es \<Longrightarrow>
   LetterNode_search n p ce \<noteq> []"
proof (induction ls arbitrary: n ce es)
  case Nil
  then have "(letter n, ce) \<in> set (LetterNode_search n p ce)"
    by (subst in_search_iff) simp
  then show ?case by auto
next
  case (Cons l ls)
  from Cons.prems(3) obtain e es' where es: "es = e # es'" "e \<in> set (puzzle_edges p)"
    "l \<in> set (edge_letters e)" "Some e \<noteq> ce" "edge_path p (Some e) ls es'"
    by (cases es) auto
  from Cons.prems(1) obtain c where c: "get n l = Some c" "descend c ls = Some m"
    by (auto split: option.splits)
  from Cons.IH [OF c(2) Cons.prems(2) es(5)] obtain w le
    where "(w, le) \<in> set (LetterNode_search c p (Some e))"
    by (cases "LetterNode_search c p (Some e)") auto
  with es c have "(letter n @ w, le) \<in> set (LetterNode_search n p ce)"
    by (subst in_search_iff) (auto simp: next_edges_iff)
  then show ?case by auto
qed

lemma iteration_not_results_None:
  "iteration self puzzle st \<noteq> Break_results_None st' \<and>
   iteration self puzzle st \<noteq> Continue_results_None st'"
  by (cases rule: iteration_cases [of self puzzle st]) (auto split: if_splits)

lemma fold_err_append:
  "fold_err (\<lambda>x acc. Inr (acc @ f x)) xs acc = Inr (acc @ concat (map f xs))"
  by (induction xs arbitrary: acc) simp_all

lemma search_py_list:
  "LetterNode_search_py n p ce = Inr (Some (LetterNode_search n p ce))"
proof (induction n p ce rule: LetterNode_search_py.induct)
  case (1 self puzzle current_edge)
  let ?child = "\<lambda>edge l. case get self l of
      None \<Rightarrow> []
    | Some current_node \<Rightarrow>
        map (\<lambda>result. (letter self @ fst result, snd result))
          (LetterNode_search current_node puzzle (Some edge))"
  have letter_step: "(case get self l of
          None \<Rightarrow> Inr search_results
        | Some current_node \<Rightarrow>
            (case LetterNode_search_py current_node puzzle (Some edge) of
               Inl e \<Rightarrow> Inl e
             | Inr None \<Rightarrow> Inl TypeError
             | Inr (Some results) \<Rightarrow>
                 Inr (search_results
                      @ map (\<lambda>result. (letter self @ fst result, snd result)) results)))
        = Inr (search_results @ ?child edge l)"
    if "edge \<in> set (next_edges puzzle current_edge)" "l \<in> set (edge_letters edge)"
    for edge l and search_results :: "(string \<times> Edge option) list"
  proof (cases "get self l")
    case None
    then show ?thesis by simp
  next
    case (Some current_node)
    from "1.IH" [OF that(1) that(2) Some] Some show ?thesis by simp
  qed
  have edge_step: "fold_err (\<lambda>l search_results.
          case get self l of
            None \<Rightarrow> Inr search_results
          | Some current_node \<Rightarrow>
              (case LetterNode_search_py current_node puzzle (Some edge) of
                 Inl e \<Rightarrow> Inl e
               | Inr None \<Rightarrow> Inl TypeError
               | Inr (Some results) \<Rightarrow>
                   Inr (search_results
                        @ map (\<lambda>result. (letter self @ fst result, snd result)) results)))
        (edge_letters edge) search_results
        = Inr (search_results @ concat (map (?child edge) (edge_letters edge)))"
    if "edge \<in> set (next_edges puzzle current_edge)"
    for edge and search_results :: "(string \<times> Edge option) list"
  proof -
    have "fold_err (\<lambda>l search_results.
          case get self l of
            None \<Rightarrow> Inr search_results
          | Some current_node \<Rightarrow>
              (case LetterNode_search_py current_node puzzle (Some edge) of
                 Inl e \<Rightarrow> Inl e
               | Inr None \<Rightarrow> Inl TypeError
               | Inr (Some results) \<Rightarrow>
                   Inr (search_results
                        @ map (\<lambda>result. (letter self @ fst result, snd result)) results)))
        (edge_letters edge) search_results
        = fold_err (\<lambda>l search_results. Inr (search_results @ ?child edge l))
            (edge_letters edge) search_results"
      by (rule fold_err_cong) (simp_all add: letter_step [OF that])
    then show ?thesis by (simp only: fold_err_append)
  qed
  have "fold_err (\<lambda>edge.
          fold_err (\<lambda>l search_results.
            case get self l of
              None \<Rightarrow> Inr search_results
            | Some current_node \<Rightarrow>
                (case LetterNode_search_py current_node puzzle (Some edge) of
                   Inl e \<Rightarrow> Inl e
                 | Inr None \<Rightarrow> Inl TypeError
                 | Inr (Some results) \<Rightarrow>
                     Inr (search_results
                          @ map (\<lambda>result. (letter self @ fst result, snd result)) results)))
          (edge_letters edge))
        (next_edges puzzle current_edge) search_results
      = fold_err (\<lambda>edge search_results.
          Inr (search_results @ concat (map (?child edge) (edge_letters edge))))
        (next_edges puzzle current_edge) search_results"
    for search_results :: "(string \<times> Edge option) list"
    by (rule fold_err_cong) (simp_all add: edge_step)
  then show ?case
    by (subst LetterNode_search_py.simps, subst LetterNode_search.simps)
      (simp only: fold_err_append sum.case)
qed

lemma search_loop_ends_normally:
  assumes run: "search_loop self puzzle st = Some (Inr st')"
  shows "\<exists>st0. passes self puzzle st st0 \<and> iteration self puzzle st0 = Break_frontier_empty st'"
proof -
  define P where "P = (\<lambda>s p (st :: search_state) (r :: error + search_state).
    \<forall>st'. r = Inr st' \<longrightarrow>
      (\<exists>st0. passes s p st st0 \<and> iteration s p st0 = Break_frontier_empty st'))"
  have "P self puzzle st (Inr st')"
  proof (rule search_loop.raw_induct [where P = P, OF _ run])
    fix loop s p st r
    assume IH: "\<And>s p st r. loop s p st = Some r \<Longrightarrow> P s p st r"
      and eq: "(case iteration s p st of
                  Raise e \<Rightarrow> Some (Inl e)
                | Break_results_None st' \<Rightarrow> Some (Inr st')
                | Continue_results_None st' \<Rightarrow> loop s p st'
                | Break_frontier_empty st' \<Rightarrow> Some (Inr st')
                | Next_pass st' \<Rightarrow> loop s p st') = Some r"
    show "P s p st r"
    proof (cases rule: iteration_cases [of s p st])
      case (raise e)
      with eq show ?thesis by (auto simp: P_def)
    next
      case (pass node st1)
      show ?thesis
      proof (cases "in_progress_lists st1 = []")
        case True
        with eq pass(3) have "r = Inr st1" "iteration s p st = Break_frontier_empty st1"
          by auto
        then show ?thesis
          unfolding P_def using passes_here [of s p st] by blast
      next
        case False
        with pass(3) have n: "iteration s p st = Next_pass (pop_frontier st1)" by simp
        with eq have "loop s p (pop_frontier st1) = Some r" by simp
        from IH [OF this] show ?thesis
          unfolding P_def using passes_next [OF n] by blast
      qed
    qed
  qed
  then show ?thesis by (simp add: P_def)
qed

lemma passes_break_ends_normally:
  "passes self puzzle st st0 \<Longrightarrow> iteration self puzzle st0 = Break_frontier_empty st' \<Longrightarrow>
   search_loop self puzzle st = Some (Inr st')"
proof (induction rule: passes.induct)
  case (passes_here st)
  then show ?case by (subst search_loop.simps) simp
next
  case (passes_next st st1 st2)
  then show ?case by (subst search_loop.simps) simp
next
  case (passes_continue st st1 st2)
  then show ?case by (subst search_loop.simps) simp
qed

lemma search_loop_ends_normally_iff:
  "search_loop self puzzle st = Some (Inr st') \<longleftrightarrow>
     (\<exists>st0. passes self puzzle st st0 \<and> iteration self puzzle st0 = Break_frontier_empty st')"
  using search_loop_ends_normally passes_break_ends_normally by blast

lemma search_raises_iff:
  "search self puzzle = Some (Inl e) \<longleftrightarrow> search_loop self puzzle initial_state = Some (Inl e)"
  by (auto simp: search_def split: option.splits sum.splits)

text \<open>
  C10 as stated fails in its last clause: the loop of the chain search is also left by an
  exception. With the one word \<open>be\<close> the second pass finds no child of the root for
  the letter \<open>e\<close> and \<^verbatim>\<open>node.search\<close> raises \<^verbatim>\<open>AttributeError\<close>; with no word at all
  the root is a leaf, the first pass returns the empty word, and the second pass raises
  \<^verbatim>\<open>IndexError\<close> on \<^verbatim>\<open>current_words[-1][-1]\<close>. Neither run ends through a test of
  the frontier.
\<close>

theorem search_loop_left_by_exception:
  "search_loop (add_all (new_solver (- 1) (- 1)) [''be'']) example_puzzle initial_state
     = Some (Inl AttributeError) \<and>
   search_loop (new_solver (- 1) (- 1)) example_puzzle initial_state = Some (Inl IndexError)"
proof -
  have "search (add_all (new_solver (- 1) (- 1)) [''be'']) example_puzzle
     = Some (Inl AttributeError)"
    by code_simp
  moreover have "search (new_solver (- 1) (- 1)) example_puzzle = Some (Inl IndexError)"
    by code_simp
  ultimately show ?thesis
    by (simp add: search_raises_iff)
qed

text \<open>
  C10, amended. \<^verbatim>\<open>LetterNode.search\<close>, called on a node, is total: every node, puzzle
  and current edge is in the domain of its recursion. Run statement by statement, with
  \<open>None\<close> and the exceptions of its statements as possible outcomes, it returns a list,
  never \<open>None\<close> and never an exception, and the list is empty exactly when no word
  boundary can be reached from the node by letters drawn from the puzzle under the edge
  rule. Hence the value the chain search tests against \<open>None\<close> is that list, no pass of
  its loop ends in the \<^verbatim>\<open>break\<close> or the \<^verbatim>\<open>continue\<close> of the test
  \<^verbatim>\<open>results is None\<close>, and the loop ends without an exception exactly when a pass
  of the run ends in the \<^verbatim>\<open>break\<close> on the empty frontier at the end of the body.
\<close>

theorem single_word_search_returns_list:
  "LetterNode_search_dom (n, puzzle, current_edge) \<and>
   LetterNode_search_py n puzzle current_edge
     = Inr (Some (LetterNode_search n puzzle current_edge)) \<and>
   call_search (Some n) puzzle current_edge = LetterNode_search_py n puzzle current_edge \<and>
   (LetterNode_search n puzzle current_edge = [] \<longleftrightarrow>
      \<not> (\<exists>ls es m. descend n ls = Some m \<and> word m \<and> edge_path puzzle current_edge ls es)) \<and>
   iteration self puzzle st \<noteq> Break_results_None st' \<and>
   iteration self puzzle st \<noteq> Continue_results_None st' \<and>
   (search_loop self puzzle st = Some (Inr st') \<longleftrightarrow>
      (\<exists>st0. passes self puzzle st st0 \<and>
         iteration self puzzle st0 = Break_frontier_empty st'))"
proof -
  have empty: "LetterNode_search n puzzle current_edge = [] \<longleftrightarrow>
      \<not> (\<exists>ls es m. descend n ls = Some m \<and> word m \<and> edge_path puzzle current_edge ls es)"
    using search_nonempty_path [of n puzzle current_edge] path_search_nonempty
    by blast
  have call: "call_search (Some n) puzzle current_edge = LetterNode_search_py n puzzle current_edge"
    by (simp add: call_search_def search_py_list)
  from empty call show ?thesis
    using LetterNode_search_total [of n puzzle current_edge]
      search_py_list [of n puzzle current_edge]
      iteration_not_results_None [of self puzzle st st']
      search_loop_ends_normally_iff [of self puzzle st st']
    by simp
qed

theorem single_word_search_returns_list_witness:
  "LetterNode_search_py (word_graph (example_solver 1)) example_puzzle None
     = Inr (Some (LetterNode_search (word_graph (example_solver 1)) example_puzzle None)) \<and>
   (\<exists>st'. search_loop (example_solver 1) example_puzzle initial_state = Some (Inr st') \<and>
      (\<exists>st0. passes (example_solver 1) example_puzzle initial_state st0 \<and>
         iteration (example_solver 1) example_puzzle st0 = Break_frontier_empty st'))"
proof -
  from search_finish [OF example_search_one] obtain st
    where st: "search_loop (example_solver 1) example_puzzle initial_state = Some (Inr st)"
    by blast
  from single_word_search_returns_list [of "word_graph (example_solver 1)" example_puzzle None
      "example_solver 1" initial_state st] st
  show ?thesis by blast
qed

end
